theory Spec2Isabelle
  imports Complex_Main
begin

section \<open>Exceptions and the retry policy (courtlistener.py)\<close>

text \<open>
  The exceptions the program raises or receives. \<open>HTTPStatusError\<close> carries the
  status code of the response; the five connection-level classes are those the retry
  wrapper names in its second handler (\<open>TimeoutException\<close> stands for a timeout that is
  none of the three named ones). \<open>TypeError\<close> is what \<open>raise None\<close> raises,
  \<open>ValueError\<close> what \<open>time.sleep\<close> raises for a negative argument, and
  \<open>OverflowError\<close> what the conversion of a too large integer to a float and
  \<open>time.sleep\<close> with a too long delay raise.
\<close>

datatype exc =
    HTTPStatusError int
  | ConnectError
  | ReadTimeout
  | WriteTimeout
  | PoolTimeout
  | TimeoutException
  | BadRequestError string
  | TypeError
  | ValueError
  | OverflowError
  | OtherError string

text \<open>What one invocation of a fallible operation does.\<close>

datatype 'a outcome = Returns 'a | Raises exc

text \<open>
  The product \<open>base_delay * (2**attempt)\<close> of a float and an integer. The integer is
  converted to a float first, which raises \<open>OverflowError\<close> from \<open>2**1024\<close> on:
  the result is \<open>None\<close> then. Below that the power is a float, and the product of a
  float with a power of two is exact unless it overflows; it then is an infinity, which
  \<open>min\<close> replaces by \<open>max_delay\<close> (or which \<open>time.sleep\<close> refuses when it is
  negative), as for the exact product. So delays are seconds, as exact numbers.
\<close>

definition times_power_of_two :: "real \<Rightarrow> nat \<Rightarrow> real option" where
  "times_power_of_two base_delay attempt =
     (if attempt < 1024 then Some (base_delay * 2 ^ attempt) else None)"

text \<open>
  The two \<open>except\<close> clauses: the delay they compute (\<open>Inr\<close>), or the exception that
  leaves the function from there (\<open>Inl\<close>): the caught exception itself by the bare
  \<open>raise\<close> of the first clause or when no clause catches it, and \<open>OverflowError\<close>
  when the delay cannot be computed.
\<close>

definition handler_delay :: "real \<Rightarrow> real \<Rightarrow> nat \<Rightarrow> exc \<Rightarrow> exc + real" where
  "handler_delay base_delay max_delay attempt e =
     (case e of
        HTTPStatusError status_code \<Rightarrow>
          if status_code = 429 then
            (case times_power_of_two base_delay attempt of
               None \<Rightarrow> Inl OverflowError
             | Some d \<Rightarrow> Inr (min (d * 2) max_delay))
          else if status_code = 400 then
            (case times_power_of_two base_delay attempt of
               None \<Rightarrow> Inl OverflowError
             | Some d \<Rightarrow> Inr (min d max_delay))
          else if status_code \<ge> 500 then
            (case times_power_of_two base_delay attempt of
               None \<Rightarrow> Inl OverflowError
             | Some d \<Rightarrow> Inr (min d max_delay))
          else Inl e
      | ConnectError \<Rightarrow>
          (case times_power_of_two base_delay attempt of
             None \<Rightarrow> Inl OverflowError
           | Some d \<Rightarrow> Inr (min d max_delay))
      | ReadTimeout \<Rightarrow>
          (case times_power_of_two base_delay attempt of
             None \<Rightarrow> Inl OverflowError
           | Some d \<Rightarrow> Inr (min d max_delay))
      | WriteTimeout \<Rightarrow>
          (case times_power_of_two base_delay attempt of
             None \<Rightarrow> Inl OverflowError
           | Some d \<Rightarrow> Inr (min d max_delay))
      | PoolTimeout \<Rightarrow>
          (case times_power_of_two base_delay attempt of
             None \<Rightarrow> Inl OverflowError
           | Some d \<Rightarrow> Inr (min d max_delay))
      | TimeoutException \<Rightarrow>
          (case times_power_of_two base_delay attempt of
             None \<Rightarrow> Inl OverflowError
           | Some d \<Rightarrow> Inr (min d max_delay))
      | _ \<Rightarrow> Inl e)"

text \<open>
  \<open>time.sleep\<close>: the exception it raises, or \<open>None\<close> when it sleeps. The interpreter
  holds the delay as a signed 64-bit count of nanoseconds and raises \<open>OverflowError\<close>
  when it does not fit, before it raises \<open>ValueError\<close> for a negative delay. (Within
  the last seconds below that limit the clock of the platform may refuse the delay as
  well; the properties proved here stay far below it.)
\<close>

definition sleep_limit :: real where
  "sleep_limit = 2 ^ 63 / 10 ^ 9"

definition time_sleep :: "real \<Rightarrow> exc option" where
  "time_sleep secs =
     (if secs < - sleep_limit \<or> sleep_limit < secs then Some OverflowError
      else if secs < 0 then Some ValueError
      else None)"

text \<open>
  The loop \<open>for attempt in range(max_retries + 1)\<close>. The operation is given by the
  outcome of its \<open>i\<close>-th invocation; the result comes with the number of invocations
  made and the delays slept, in order. An exception that leaves a handler or
  \<open>time.sleep\<close> ends the loop.
\<close>

fun retry_loop ::
  "(nat \<Rightarrow> 'a outcome) \<Rightarrow> int \<Rightarrow> real \<Rightarrow> real \<Rightarrow> nat list \<Rightarrow> exc option \<Rightarrow> nat \<Rightarrow> real list
   \<Rightarrow> (exc + 'a) \<times> nat \<times> real list" where
  "retry_loop fn max_retries base_delay max_delay [] last_exception calls sleeps =
     (case last_exception of
        None \<Rightarrow> (Inl TypeError, calls, sleeps)
      | Some e \<Rightarrow> (Inl e, calls, sleeps))"
| "retry_loop fn max_retries base_delay max_delay (attempt # rest) last_exception calls sleeps =
     (case fn calls of
        Returns v \<Rightarrow> (Inr v, Suc calls, sleeps)
      | Raises e \<Rightarrow>
          (case handler_delay base_delay max_delay attempt e of
             Inl raised \<Rightarrow> (Inl raised, Suc calls, sleeps)
           | Inr delay \<Rightarrow>
               if int attempt < max_retries then
                 (case time_sleep delay of
                    Some raised \<Rightarrow> (Inl raised, Suc calls, sleeps)
                  | None \<Rightarrow>
                      retry_loop fn max_retries base_delay max_delay rest (Some e)
                        (Suc calls) (sleeps @ [delay]))
               else retry_loop fn max_retries base_delay max_delay rest (Some e)
                      (Suc calls) sleeps))"

definition retry_with_backoff ::
  "(nat \<Rightarrow> 'a outcome) \<Rightarrow> int \<Rightarrow> real \<Rightarrow> real \<Rightarrow> (exc + 'a) \<times> nat \<times> real list" where
  "retry_with_backoff fn max_retries base_delay max_delay =
     retry_loop fn max_retries base_delay max_delay [0..<nat (max_retries + 1)] None 0 []"

text \<open>The defaults of the signature: three retries, base delay 1s, maximal delay 30s.\<close>

definition retry_with_backoff_default :: "(nat \<Rightarrow> 'a outcome) \<Rightarrow> (exc + 'a) \<times> nat \<times> real list" where
  "retry_with_backoff_default fn = retry_with_backoff fn 3 1 30"

text \<open>
  The classification and the schedule in the words of the specification, to be compared
  with \<open>handler_delay\<close>: a failure is retried when its status is 429, 400 or at least
  500, or when it is a connection-level failure; the delay of attempt \<open>n\<close> is
  \<open>min (base_delay * 2 ^ n [* 2 for status 429]) max_delay\<close>.
\<close>

definition spec_retried :: "exc \<Rightarrow> bool" where
  "spec_retried e =
     (case e of
        HTTPStatusError s \<Rightarrow> s = 429 \<or> s = 400 \<or> s \<ge> 500
      | ConnectError \<Rightarrow> True
      | ReadTimeout \<Rightarrow> True
      | WriteTimeout \<Rightarrow> True
      | PoolTimeout \<Rightarrow> True
      | TimeoutException \<Rightarrow> True
      | _ \<Rightarrow> False)"

definition spec_delay :: "real \<Rightarrow> real \<Rightarrow> nat \<Rightarrow> exc \<Rightarrow> real" where
  "spec_delay base_delay max_delay attempt e =
     min (base_delay * 2 ^ attempt * (if e = HTTPStatusError 429 then 2 else 1)) max_delay"

section \<open>Opinion chunker (evaluation.py)\<close>

text \<open>
  Python's \<open>text[a:b]\<close> for arbitrary integers: a negative index counts from the end,
  and both indices are clamped to \<open>0 .. len(text)\<close>; the slice is empty when the
  adjusted stop does not exceed the adjusted start.
\<close>

definition py_index :: "nat \<Rightarrow> int \<Rightarrow> nat" where
  "py_index n i = (if i < 0 then nat (max (i + int n) 0) else min (nat i) n)"

definition py_slice :: "'a list \<Rightarrow> int \<Rightarrow> int \<Rightarrow> 'a list" where
  "py_slice text a b =
     (let lo = py_index (length text) a; hi = py_index (length text) b
      in take (hi - lo) (drop lo text))"

text \<open>
  The \<open>while start < len(text)\<close> loop. Nothing in the source bounds the number of
  iterations, so the loop is a partial function: \<open>None\<close> is a run that never returns.
\<close>

partial_function (option) chunk_loop ::
  "'a list \<Rightarrow> int \<Rightarrow> int \<Rightarrow> int \<Rightarrow> 'a list list \<Rightarrow> 'a list list option" where
  "chunk_loop text chunk_size overlap start chunks =
     (if start < int (length text) then
        (let stop = start + chunk_size;
             chunk = py_slice text start stop
         in chunk_loop text chunk_size overlap (stop - overlap) (chunks @ [chunk]))
      else Some chunks)"

declare chunk_loop.simps [code]

definition chunk_text :: "'a list \<Rightarrow> int \<Rightarrow> int \<Rightarrow> 'a list list option" where
  "chunk_text text chunk_size overlap =
     (if int (length text) \<le> chunk_size then Some [text]
      else chunk_loop text chunk_size overlap 0 [])"

text \<open>The defaults of the signature: \<open>chunk_size = 20000\<close>, \<open>overlap = 500\<close>.\<close>

definition chunk_text_default :: "'a list \<Rightarrow> 'a list list option" where
  "chunk_text_default text = chunk_text text 20000 500"

text \<open>Python's \<open>chunk[a:]\<close>.\<close>

definition py_slice_from :: "'a list \<Rightarrow> int \<Rightarrow> 'a list" where
  "py_slice_from xs a = py_slice xs a (int (length xs))"

text \<open>
  Two consecutive windows share \<open>n\<close> characters: the last \<open>n\<close> characters of the
  first exist, the first \<open>n\<close> characters of the second exist, and they are equal.
\<close>

definition shares_overlap :: "nat \<Rightarrow> 'a list \<Rightarrow> 'a list \<Rightarrow> bool" where
  "shares_overlap n w w' \<longleftrightarrow>
     n \<le> length w \<and> n \<le> length w' \<and> drop (length w - n) w = take n w'"

text \<open>
  The windows the loop produces when it advances by a positive step: window \<open>k\<close> is
  the slice of length \<open>sz\<close> that begins at \<open>start + k * step\<close>. Used to state
  what \<open>chunk_loop\<close> returns.
\<close>

function windows :: "'a list \<Rightarrow> nat \<Rightarrow> nat \<Rightarrow> nat \<Rightarrow> 'a list list" where
  "windows text sz step start =
     (if start < length text \<and> 0 < step
      then take sz (drop start text) # windows text sz step (start + step)
      else [])"
  by pat_completeness auto

termination
  by (relation "measure (\<lambda>(text, sz, step, start). length text - start)") auto

declare windows.simps [simp del]

section \<open>Data model (models.py, courtlistener.py, citations.py, evaluation.py)\<close>

text \<open>\<open>models.Citation\<close>. Every field but \<open>raw_text\<close> is optional and defaults to \<open>None\<close>.\<close>

record citation =
  raw_text :: string
  case_name :: "string option"
  volume :: "string option"
  reporter :: "string option"
  page :: "string option"
  year :: "int option"
  court :: "string option"
  is_valid :: "bool option"
  courtlistener_id :: "string option"
  validation_error :: "string option"
  opinion_text :: "string option"

definition Citation :: "string \<Rightarrow> citation" where
  "Citation raw = \<lparr>raw_text = raw, case_name = None, volume = None, reporter = None,
     page = None, year = None, court = None, is_valid = None, courtlistener_id = None,
     validation_error = None, opinion_text = None\<rparr>"

text \<open>
  The value stored under a key of \<open>CitationCache._cache\<close>, which is also what
  \<open>CacheEntry\<close> carries. The wall-clock \<open>timestamp\<close> is left out: nothing reads it.
\<close>

record cache_data =
  cached_is_valid :: bool
  cached_courtlistener_id :: "string option"
  cached_case_name :: "string option"
  cached_opinion_text :: "string option"
  cached_error :: "string option"
  cached_raw_text :: string

text \<open>
  The JSON objects of the lookup service, with the keys the client reads. A key that is
  absent is \<open>None\<close>; \<open>cl_id\<close> holds \<open>str\<close> of the identifier; \<open>cl_other_keys\<close> tells
  whether the object has any key besides these.
\<close>

record cluster =
  cl_id :: "string option"
  cl_case_name :: "string option"
  cl_sub_opinions :: "string list option"
  cl_html_with_citations :: "string option"
  cl_plain_text :: "string option"
  cl_other_keys :: bool

record opinion_data =
  od_html_with_citations :: "string option"
  od_plain_text :: "string option"

record lookup_match =
  lm_status :: "int option"
  lm_clusters :: "cluster list"

text \<open>\<open>citations.ExtractedCitation\<close>.\<close>

record extracted_citation =
  ex_raw_text :: string
  ex_citation_type :: string
  ex_proposition :: string

text \<open>\<open>evaluation.PropositionSupportResult\<close>.\<close>

record proposition_support_result =
  supports_proposition :: bool
  confidence :: string
  reasoning :: string
  relevant_excerpt :: "string option"

text \<open>\<open>evaluation.CitationEvaluation\<close>; the fields carry the prefix \<open>ev_\<close>.\<close>

record citation_evaluation =
  ev_raw_text :: string
  ev_citation_type :: string
  ev_proposition :: string
  ev_is_valid :: "bool option"
  ev_courtlistener_id :: "string option"
  ev_case_name :: "string option"
  ev_validation_error :: "string option"
  ev_supports_proposition :: "bool option"
  ev_support_confidence :: "string option"
  ev_support_reasoning :: "string option"
  ev_relevant_excerpt :: "string option"

text \<open>
  \<open>evaluation.ComplaintEvaluation\<close>. The dictionary \<open>citations\<close> is an association list
  in insertion order.
\<close>

record complaint_evaluation =
  complaint_file :: string
  scenario_id :: "string option"
  category :: "string option"
  model :: "string option"
  total_citations :: int
  case_citations :: int
  statute_citations :: int
  valid_citations :: int
  invalid_citations :: int
  supported_propositions :: int
  unsupported_propositions :: int
  citations :: "(string \<times> citation_evaluation) list"

text \<open>
  The external collaborators. \<open>make_key\<close> is the fingerprint of a raw text (the MD5
  digest of the lower-cased, stripped text) and \<open>text_content\<close> the markup stripper of
  \<open>lxml\<close>. Each HTTP operation is given by what its \<open>n\<close>-th request overall does:
  return the parsed JSON, or raise. Each request to the language model is given likewise:
  it returns the parsed output, which may be \<open>None\<close>, or raises.
\<close>

record services =
  make_key :: "string \<Rightarrow> string"
  post_citation_lookup :: "nat \<Rightarrow> string \<Rightarrow> lookup_match list outcome"
  get_opinion :: "nat \<Rightarrow> string \<Rightarrow> opinion_data outcome"
  text_content :: "string \<Rightarrow> string"
  parse_extraction :: "nat \<Rightarrow> string \<Rightarrow> extracted_citation list option outcome"
  parse_support :: "nat \<Rightarrow> string \<Rightarrow> string \<Rightarrow> string \<Rightarrow> proposition_support_result option outcome"

text \<open>
  The state the program changes: the in-memory cache dictionary, the number of HTTP
  requests sent to the lookup service, and the number of requests sent to the language
  model.
\<close>

record world =
  cache :: "string \<rightharpoonup> cache_data"
  requests :: nat
  llm_calls :: nat

text \<open>Truth value of an \<open>Optional[str]\<close>: neither \<open>None\<close> nor the empty string.\<close>

definition truthy :: "string option \<Rightarrow> bool" where
  "truthy s = (case s of None \<Rightarrow> False | Some t \<Rightarrow> t \<noteq> [])"

text \<open>Truth value of a cluster object: a dictionary is true when it has a key.\<close>

definition cluster_truthy :: "cluster \<Rightarrow> bool" where
  "cluster_truthy cl \<longleftrightarrow>
     cl_id cl \<noteq> None \<or> cl_case_name cl \<noteq> None \<or> cl_sub_opinions cl \<noteq> None \<or>
     cl_html_with_citations cl \<noteq> None \<or> cl_plain_text cl \<noteq> None \<or> cl_other_keys cl"

section \<open>Validation cache and citation validator (courtlistener.py)\<close>

definition cache_get :: "services \<Rightarrow> world \<Rightarrow> citation \<Rightarrow> cache_data option" where
  "cache_get svc w citation = cache w (make_key svc (raw_text citation))"

definition cache_set ::
  "services \<Rightarrow> world \<Rightarrow> citation \<Rightarrow> bool \<Rightarrow> string option \<Rightarrow> string option \<Rightarrow> string option
   \<Rightarrow> string option \<Rightarrow> world" where
  "cache_set svc w citation valid cl_ident name text err =
     w\<lparr>cache := (cache w)(make_key svc (raw_text citation) \<mapsto>
        \<lparr>cached_is_valid = valid, cached_courtlistener_id = cl_ident,
         cached_case_name = name, cached_opinion_text = text, cached_error = err,
         cached_raw_text = raw_text citation\<rparr>)\<rparr>"

text \<open>
  A request wrapped by \<open>retry_with_backoff\<close> with its defaults: invocation \<open>i\<close> of the
  wrapped operation is request \<open>requests w + i\<close>, and the count of requests grows by the
  number of invocations made. The minimum-interval gate \<open>_rate_limit\<close> only sleeps and is
  left out.
\<close>

definition with_retry :: "world \<Rightarrow> (nat \<Rightarrow> 'a outcome) \<Rightarrow> (exc + 'a) \<times> world" where
  "with_retry w request =
     (case retry_with_backoff_default (\<lambda>i. request (requests w + i)) of
        (r, calls, sleeps) \<Rightarrow> (r, w\<lparr>requests := requests w + calls\<rparr>))"

definition extract_opinion_text ::
  "services \<Rightarrow> world \<Rightarrow> cluster \<Rightarrow> (exc + string option) \<times> world" where
  "extract_opinion_text svc w cl =
     (case cl_sub_opinions cl of
        Some (opinion_url # _) \<Rightarrow>
          (case with_retry w (\<lambda>n. get_opinion svc n opinion_url) of
             (Inl e, w') \<Rightarrow> (Inl e, w')
           | (Inr opinion, w') \<Rightarrow>
               (case od_html_with_citations opinion of
                  Some h \<Rightarrow> (Inr (Some (text_content svc h)), w')
                | None \<Rightarrow> (Inr (od_plain_text opinion), w')))
      | _ \<Rightarrow>
          (case cl_html_with_citations cl of
             Some h \<Rightarrow> (Inr (Some (text_content svc h)), w)
           | None \<Rightarrow> (Inr (cl_plain_text cl), w)))"

definition lookup_citation ::
  "services \<Rightarrow> world \<Rightarrow> string \<Rightarrow> (exc + cluster option) \<times> world" where
  "lookup_citation svc w raw =
     (case with_retry w (\<lambda>n. post_citation_lookup svc n raw) of
        (Inl e, w') \<Rightarrow> (Inl e, w')
      | (Inr results, w') \<Rightarrow>
          (case results of
             [] \<Rightarrow> (Inr None, w')
           | first_result # _ \<Rightarrow>
               if lm_status first_result = Some 200 then
                 (case lm_clusters first_result of
                    [] \<Rightarrow> (Inr None, w')
                  | c # _ \<Rightarrow> (Inr (Some c), w'))
               else (Inr None, w')))"

text \<open>
  The branch of \<open>validate_citation\<close> for a lookup that found no cluster.
\<close>

definition not_found :: "services \<Rightarrow> world \<Rightarrow> citation \<Rightarrow> exc option \<times> citation \<times> world" where
  "not_found svc w citation =
     (let c1 = citation\<lparr>is_valid := Some False,
                         validation_error := Some ''Citation not found in CourtListener''\<rparr>
      in (None, c1, cache_set svc w c1 False None None None (Some ''Not found'')))"

text \<open>
  The branch of \<open>validate_citation\<close> for a lookup that found a cluster. The case name
  of the cluster is written only when the citation has none.
\<close>

definition found ::
  "services \<Rightarrow> world \<Rightarrow> citation \<Rightarrow> cluster \<Rightarrow> exc option \<times> citation \<times> world" where
  "found svc w citation cl =
     (let c1 = citation\<lparr>is_valid := Some True,
                 courtlistener_id := Some (case cl_id cl of Some i \<Rightarrow> i | None \<Rightarrow> [])\<rparr>;
          c2 = (if \<not> truthy (case_name c1) \<and> truthy (cl_case_name cl)
                then c1\<lparr>case_name := cl_case_name cl\<rparr> else c1)
      in case extract_opinion_text svc w cl of
           (Inl e, w') \<Rightarrow> (Some e, c2, w')
         | (Inr text, w') \<Rightarrow>
             (let c3 = c2\<lparr>opinion_text := text\<rparr>
              in (None, c3,
                  cache_set svc w' c3 True (courtlistener_id c3) (case_name c3) text None)))"

text \<open>
  \<open>validate_citation\<close> changes the citation in place and returns it. The model returns
  the exception raised, if any, with the citation as it then stands, and the new state.
  The first branch is the cache hit.
\<close>

definition validate_citation ::
  "services \<Rightarrow> world \<Rightarrow> citation \<Rightarrow> exc option \<times> citation \<times> world" where
  "validate_citation svc w citation =
     (case cache_get svc w citation of
        Some cached \<Rightarrow>
          (let c1 = citation\<lparr>is_valid := Some (cached_is_valid cached),
                      courtlistener_id := cached_courtlistener_id cached,
                      opinion_text := cached_opinion_text cached\<rparr>;
               c2 = (if truthy (cached_case_name cached)
                     then c1\<lparr>case_name := cached_case_name cached\<rparr> else c1);
               c3 = (if truthy (cached_error cached)
                     then c2\<lparr>validation_error := cached_error cached\<rparr> else c2)
           in (None, c3, w))
      | None \<Rightarrow>
          (case lookup_citation svc w (raw_text citation) of
             (Inl e, w') \<Rightarrow> (Some e, citation, w')
           | (Inr None, w') \<Rightarrow> not_found svc w' citation
           | (Inr (Some cl), w') \<Rightarrow>
               if cluster_truthy cl then found svc w' citation cl
               else not_found svc w' citation))"

text \<open>
  \<open>validate_citations\<close>: the loop over the list, which skips statutes and citations
  whose validity is set.
\<close>

fun validate_citations ::
  "services \<Rightarrow> world \<Rightarrow> citation list \<Rightarrow> exc option \<times> citation list \<times> world" where
  "validate_citations svc w [] = (None, [], w)"
| "validate_citations svc w (citation # rest) =
     (if court citation = Some ''STATUTE'' \<or> is_valid citation \<noteq> None then
        (case validate_citations svc w rest of (e, rest', w') \<Rightarrow> (e, citation # rest', w'))
      else
        (case validate_citation svc w citation of
           (Some e, c', w') \<Rightarrow> (Some e, c' # rest, w')
         | (None, c', w') \<Rightarrow>
             (case validate_citations svc w' rest of
                (e, rest', w'') \<Rightarrow> (e, c' # rest', w''))))"

section \<open>Proposition support evaluator (evaluation.py)\<close>

text \<open>\<open>str\<close> of a non-negative integer: its decimal digits.\<close>

definition digit_char :: "nat \<Rightarrow> char" where
  "digit_char d = ''0123456789'' ! d"

function str_nat :: "nat \<Rightarrow> string" where
  "str_nat n = (if n < 10 then [digit_char n] else str_nat (n div 10) @ [digit_char (n mod 10)])"
  by pat_completeness auto

termination
  by (relation "measure id") auto

declare str_nat.simps [simp del]

text \<open>\<open>str.lower\<close> on the ASCII letters, and the substring test \<open>sub in s\<close>.\<close>

definition lower_char :: "char \<Rightarrow> char" where
  "lower_char c =
     (let n = (of_char c :: nat) in if 65 \<le> n \<and> n \<le> 90 then char_of (n + 32) else c)"

definition lower :: "string \<Rightarrow> string" where
  "lower s = map lower_char s"

fun contains :: "'a list \<Rightarrow> 'a list \<Rightarrow> bool" where
  "contains sub [] \<longleftrightarrow> sub = []"
| "contains sub (x # xs) \<longleftrightarrow> take (length sub) (x # xs) = sub \<or> contains sub xs"

text \<open>
  One request to the language model (\<open>_evaluate_single_chunk\<close>): the parsed result, a
  fixed negative result when the response has no parsed output, or the exception.
\<close>

definition evaluate_single_chunk ::
  "services \<Rightarrow> world \<Rightarrow> string \<Rightarrow> string \<Rightarrow> string
   \<Rightarrow> (exc + proposition_support_result) \<times> world" where
  "evaluate_single_chunk svc w citation_text proposition opinion_chunk =
     (let w' = w\<lparr>llm_calls := Suc (llm_calls w)\<rparr>
      in case parse_support svc (llm_calls w) citation_text proposition opinion_chunk of
           Raises e \<Rightarrow> (Inl e, w')
         | Returns None \<Rightarrow>
             (Inr \<lparr>supports_proposition = False, confidence = ''low'',
                   reasoning = ''Failed to evaluate proposition support'',
                   relevant_excerpt = None\<rparr>, w')
         | Returns (Some result) \<Rightarrow> (Inr result, w'))"

text \<open>
  The loop over the chunks. It carries \<open>best_supporting_result\<close> and \<open>all_results\<close>;
  a \<open>BadRequestError\<close> skips the chunk, any other exception leaves the function, and a
  supporting result of high confidence that becomes the best one ends the loop.
\<close>

fun evaluate_chunks ::
  "services \<Rightarrow> string \<Rightarrow> string \<Rightarrow> string list \<Rightarrow> proposition_support_result option
   \<Rightarrow> proposition_support_result list \<Rightarrow> world
   \<Rightarrow> (exc + proposition_support_result option \<times> proposition_support_result list) \<times> world"
  where
  "evaluate_chunks svc citation_text proposition [] best_supporting_result all_results w =
     (Inr (best_supporting_result, all_results), w)"
| "evaluate_chunks svc citation_text proposition (chunk # rest) best_supporting_result
     all_results w =
     (case evaluate_single_chunk svc w citation_text proposition chunk of
        (Inl (BadRequestError msg), w') \<Rightarrow>
          evaluate_chunks svc citation_text proposition rest best_supporting_result all_results w'
      | (Inl e, w') \<Rightarrow> (Inl e, w')
      | (Inr result, w') \<Rightarrow>
          (let all_results' = all_results @ [result] in
           if supports_proposition result then
             (if (case best_supporting_result of
                    None \<Rightarrow> True
                  | Some best \<Rightarrow> confidence result = ''high'' \<and> confidence best \<noteq> ''high'')
              then
                (if confidence result = ''high'' then (Inr (Some result, all_results'), w')
                 else evaluate_chunks svc citation_text proposition rest (Some result)
                        all_results' w')
              else evaluate_chunks svc citation_text proposition rest best_supporting_result
                     all_results' w')
           else evaluate_chunks svc citation_text proposition rest best_supporting_result
                  all_results' w'))"

text \<open>\<open>confidence_order.get(r.confidence, 3)\<close>.\<close>

definition confidence_order :: "string \<Rightarrow> nat" where
  "confidence_order c =
     (if c = ''high'' then 0 else if c = ''medium'' then 1 else if c = ''low'' then 2 else 3)"

text \<open>
  What is returned after the loop. \<open>list.sort\<close> is stable, as \<open>sort_key\<close> is.
\<close>

definition chunked_result ::
  "string list \<Rightarrow> proposition_support_result option \<Rightarrow> proposition_support_result list
   \<Rightarrow> proposition_support_result" where
  "chunked_result chunks best_supporting_result all_results =
     (case best_supporting_result of
        Some best \<Rightarrow> best\<lparr>reasoning := ''[Evaluated in chunks] '' @ reasoning best\<rparr>
      | None \<Rightarrow>
          (case sort_key (\<lambda>r. confidence_order (confidence r)) all_results of
             result # _ \<Rightarrow>
               result\<lparr>reasoning := ''[Evaluated in '' @ str_nat (length chunks) @ '' chunks] ''
                                    @ reasoning result\<rparr>
           | [] \<Rightarrow>
               \<lparr>supports_proposition = False, confidence = ''low'',
                reasoning = ''Failed to evaluate proposition support (all chunks failed)'',
                relevant_excerpt = None\<rparr>))"

text \<open>The test on the message of the \<open>BadRequestError\<close> of the first request.\<close>

definition is_context_length_error :: "string \<Rightarrow> bool" where
  "is_context_length_error msg \<longleftrightarrow>
     \<not> (\<not> contains ''token'' (lower msg) \<and> \<not> contains ''length'' (lower msg) \<and>
        \<not> contains ''context'' (lower msg))"

text \<open>
  \<open>evaluate_proposition_support\<close>. The chunker is a loop that may not return, so the
  result is optional: \<open>None\<close> is a run that never returns.
\<close>

definition evaluate_proposition_support ::
  "services \<Rightarrow> world \<Rightarrow> string \<Rightarrow> string \<Rightarrow> string
   \<Rightarrow> ((exc + proposition_support_result) \<times> world) option" where
  "evaluate_proposition_support svc w citation_text proposition opinion =
     (case evaluate_single_chunk svc w citation_text proposition opinion of
        (Inr result, w') \<Rightarrow> Some (Inr result, w')
      | (Inl (BadRequestError msg), w') \<Rightarrow>
          if \<not> is_context_length_error msg then Some (Inl (BadRequestError msg), w')
          else
            (case chunk_text_default opinion of
               None \<Rightarrow> None
             | Some chunks \<Rightarrow>
                 (case evaluate_chunks svc citation_text proposition chunks None [] w' of
                    (Inl e, w'') \<Rightarrow> Some (Inl e, w'')
                  | (Inr (best_supporting_result, all_results), w'') \<Rightarrow>
                      Some (Inr (chunked_result chunks best_supporting_result all_results),
                            w'')))
      | (Inl e, w') \<Rightarrow> Some (Inl e, w'))"

section \<open>Evaluation orchestrator (evaluation.py, citations.py)\<close>

definition extract_citations_with_llm ::
  "services \<Rightarrow> world \<Rightarrow> string \<Rightarrow> (exc + extracted_citation list) \<times> world" where
  "extract_citations_with_llm svc w text =
     (let w' = w\<lparr>llm_calls := Suc (llm_calls w)\<rparr>
      in case parse_extraction svc (llm_calls w) text of
           Raises e \<Rightarrow> (Inl e, w')
         | Returns None \<Rightarrow> (Inr [], w')
         | Returns (Some result) \<Rightarrow> (Inr result, w'))"

definition CitationEvaluation :: "string \<Rightarrow> string \<Rightarrow> string \<Rightarrow> citation_evaluation" where
  "CitationEvaluation raw type proposition =
     \<lparr>ev_raw_text = raw, ev_citation_type = type, ev_proposition = proposition,
      ev_is_valid = None, ev_courtlistener_id = None, ev_case_name = None,
      ev_validation_error = None, ev_supports_proposition = None,
      ev_support_confidence = None, ev_support_reasoning = None,
      ev_relevant_excerpt = None\<rparr>"

text \<open>
  The loop body of \<open>evaluate_complaint\<close> up to the choice of the key, in two parts.
  \<open>assess_support\<close> is the block under \<open>if validated.opinion_text\<close>: it asks whether
  the opinion supports the proposition and counts the verdict. \<open>assess_citation\<close> is the
  rest: it counts the citation, validates a case citation and counts its validity. Both
  return the evaluation with its counters advanced, the \<open>CitationEvaluation\<close> built, and
  the new state.
\<close>

definition assess_support ::
  "services \<Rightarrow> world \<Rightarrow> complaint_evaluation \<Rightarrow> citation_evaluation \<Rightarrow> extracted_citation
   \<Rightarrow> string \<Rightarrow> ((exc + complaint_evaluation \<times> citation_evaluation) \<times> world) option" where
  "assess_support svc w evaluation cit_eval cit opinion =
     (case evaluate_proposition_support svc w (ex_raw_text cit) (ex_proposition cit) opinion of
        None \<Rightarrow> None
      | Some (Inl e, w') \<Rightarrow> Some (Inl e, w')
      | Some (Inr support_result, w') \<Rightarrow>
          (let cit_eval' = cit_eval
                 \<lparr>ev_supports_proposition := Some (supports_proposition support_result),
                  ev_support_confidence := Some (confidence support_result),
                  ev_support_reasoning := Some (reasoning support_result),
                  ev_relevant_excerpt := relevant_excerpt support_result\<rparr>
           in if supports_proposition support_result then
                Some (Inr (evaluation\<lparr>supported_propositions :=
                             supported_propositions evaluation + 1\<rparr>, cit_eval'), w')
              else
                Some (Inr (evaluation\<lparr>unsupported_propositions :=
                             unsupported_propositions evaluation + 1\<rparr>, cit_eval'), w')))"

definition assess_citation ::
  "services \<Rightarrow> world \<Rightarrow> complaint_evaluation \<Rightarrow> extracted_citation
   \<Rightarrow> ((exc + complaint_evaluation \<times> citation_evaluation) \<times> world) option" where
  "assess_citation svc w evaluation cit =
     (let cit_eval = CitationEvaluation (ex_raw_text cit) (ex_citation_type cit)
                       (ex_proposition cit)
      in if ex_citation_type cit = ''statute'' then
           Some (Inr (evaluation\<lparr>statute_citations := statute_citations evaluation + 1\<rparr>,
                      cit_eval\<lparr>ev_is_valid := None\<rparr>), w)
         else
           (let evaluation1 = evaluation\<lparr>case_citations := case_citations evaluation + 1\<rparr>
            in case validate_citation svc w (Citation (ex_raw_text cit)) of
                 (Some e, validated, w') \<Rightarrow> Some (Inl e, w')
               | (None, validated, w') \<Rightarrow>
                   (let cit_eval1 = cit_eval\<lparr>ev_is_valid := is_valid validated,
                          ev_courtlistener_id := courtlistener_id validated,
                          ev_case_name := case_name validated,
                          ev_validation_error := validation_error validated\<rparr>
                    in if is_valid validated = Some True then
                         (let evaluation2 = evaluation1
                                \<lparr>valid_citations := valid_citations evaluation1 + 1\<rparr>
                          in case opinion_text validated of
                               None \<Rightarrow> Some (Inr (evaluation2, cit_eval1), w')
                             | Some opinion \<Rightarrow>
                                 if opinion = [] then Some (Inr (evaluation2, cit_eval1), w')
                                 else assess_support svc w' evaluation2 cit_eval1 cit opinion)
                       else
                         Some (Inr (evaluation1\<lparr>invalid_citations :=
                                      invalid_citations evaluation1 + 1\<rparr>, cit_eval1), w'))))"

text \<open>
  The numbered candidate for a key, \<open>f"{cit.raw_text} ({counter})"\<close>.
\<close>

definition numbered_key :: "string \<Rightarrow> nat \<Rightarrow> string" where
  "numbered_key raw counter = raw @ '' ('' @ str_nat counter @ '')''"

text \<open>
  The search for a free key: \<open>while key in evaluation.citations\<close>. The source gives no
  bound for the loop, so it is a partial function; \<open>unique_key_returns\<close> shows that it
  always returns.
\<close>

partial_function (option) unique_key ::
  "(string \<times> citation_evaluation) list \<Rightarrow> string \<Rightarrow> string \<Rightarrow> nat \<Rightarrow> string option" where
  "unique_key d raw key counter =
     (if key \<in> set (map fst d)
      then unique_key d raw (numbered_key raw counter) (counter + 1)
      else Some key)"

declare unique_key.simps [code]

text \<open>\<open>d[key] = value\<close> on a dictionary in insertion order.\<close>

fun dict_set :: "('k \<times> 'v) list \<Rightarrow> 'k \<Rightarrow> 'v \<Rightarrow> ('k \<times> 'v) list" where
  "dict_set [] key v = [(key, v)]"
| "dict_set ((k, v') # d) key v = (if k = key then (k, v) # d else (k, v') # dict_set d key v)"

definition store_citation ::
  "complaint_evaluation \<Rightarrow> extracted_citation \<Rightarrow> citation_evaluation
   \<Rightarrow> complaint_evaluation option" where
  "store_citation evaluation cit cit_eval =
     (case unique_key (citations evaluation) (ex_raw_text cit) (ex_raw_text cit) 1 of
        None \<Rightarrow> None
      | Some key \<Rightarrow>
          Some (evaluation\<lparr>citations := dict_set (citations evaluation) key cit_eval\<rparr>))"

fun evaluate_citations ::
  "services \<Rightarrow> world \<Rightarrow> complaint_evaluation \<Rightarrow> extracted_citation list
   \<Rightarrow> ((exc + complaint_evaluation) \<times> world) option" where
  "evaluate_citations svc w evaluation [] = Some (Inr evaluation, w)"
| "evaluate_citations svc w evaluation (cit # rest) =
     (case assess_citation svc w evaluation cit of
        None \<Rightarrow> None
      | Some (Inl e, w') \<Rightarrow> Some (Inl e, w')
      | Some (Inr (evaluation', cit_eval), w') \<Rightarrow>
          (case store_citation evaluation' cit cit_eval of
             None \<Rightarrow> None
           | Some evaluation'' \<Rightarrow> evaluate_citations svc w' evaluation'' rest))"

text \<open>
  \<open>evaluate_complaint\<close>, from the name and text of the complaint file and the
  metadata read from its side file.
\<close>

record metadata =
  md_scenario_id :: "string option"
  md_category :: "string option"
  md_model :: "string option"

definition evaluate_complaint ::
  "services \<Rightarrow> world \<Rightarrow> string \<Rightarrow> metadata \<Rightarrow> string
   \<Rightarrow> ((exc + complaint_evaluation) \<times> world) option" where
  "evaluate_complaint svc w name md complaint_text =
     (let evaluation = \<lparr>complaint_file = name, scenario_id = md_scenario_id md,
            category = md_category md, model = md_model md, total_citations = 0,
            case_citations = 0, statute_citations = 0, valid_citations = 0,
            invalid_citations = 0, supported_propositions = 0,
            unsupported_propositions = 0, citations = []\<rparr>
      in case extract_citations_with_llm svc w complaint_text of
           (Inl e, w') \<Rightarrow> Some (Inl e, w')
         | (Inr cits, w') \<Rightarrow>
             evaluate_citations svc w'
               (evaluation\<lparr>total_citations := int (length cits)\<rparr>) cits)"

subsection \<open>Notions used to state the properties of the orchestrator\<close>

text \<open>
  The key the specification gives to a citation whose raw text has occurred \<open>earlier\<close>
  times before in the document: the raw text itself for the first occurrence, the raw
  text followed by \<open>(1)\<close> for the second, and so on.
\<close>

definition spec_key :: "string \<Rightarrow> nat \<Rightarrow> string" where
  "spec_key raw earlier = (if earlier = 0 then raw else numbered_key raw earlier)"

text \<open>
  The keys of the citations mapping of a run that returned an evaluation, in insertion
  order.
\<close>

definition citation_keys ::
  "((exc + complaint_evaluation) \<times> world) option \<Rightarrow> string list option" where
  "citation_keys run =
     (case run of Some (Inr ev, w) \<Rightarrow> Some (map fst (citations ev)) | _ \<Rightarrow> None)"

text \<open>
  The seven counters of an evaluation.
\<close>

definition counts :: "complaint_evaluation \<Rightarrow> int \<times> int \<times> int \<times> int \<times> int \<times> int \<times> int" where
  "counts ev = (total_citations ev, case_citations ev, statute_citations ev,
     valid_citations ev, invalid_citations ev, supported_propositions ev,
     unsupported_propositions ev)"

text \<open>
  The invariant of the loop over the citations. An entry is consistent when a citation
  that is no statute has a validity, and a support verdict occurs only on a valid case
  citation. The counters are consistent when every citation stored so far was counted as
  a case or a statute, every case as valid or invalid, and every support verdict of an
  entry as supported or unsupported.
\<close>

definition entry_consistent :: "citation_evaluation \<Rightarrow> bool" where
  "entry_consistent e \<longleftrightarrow>
     (ev_citation_type e = ''statute'' \<or> ev_is_valid e \<noteq> None) \<and>
     (ev_supports_proposition e = None \<or>
      ev_is_valid e = Some True \<and> ev_citation_type e \<noteq> ''statute'')"

definition has_verdict :: "string \<times> citation_evaluation \<Rightarrow> bool" where
  "has_verdict entry \<longleftrightarrow> ev_supports_proposition (snd entry) \<noteq> None"

definition counts_consistent :: "complaint_evaluation \<Rightarrow> bool" where
  "counts_consistent ev \<longleftrightarrow>
     case_citations ev + statute_citations ev = int (length (citations ev)) \<and>
     0 \<le> statute_citations ev \<and>
     valid_citations ev + invalid_citations ev = case_citations ev \<and>
     0 \<le> invalid_citations ev \<and>
     supported_propositions ev + unsupported_propositions ev \<le> valid_citations ev \<and>
     supported_propositions ev + unsupported_propositions ev =
       int (length (filter has_verdict (citations ev))) \<and>
     list_all (\<lambda>entry. entry_consistent (snd entry)) (citations ev)"

section \<open>Concrete runs\<close>

text \<open>
  Services for concrete runs: the lookup finds one cluster for
  \<open>Smith v. Jones, 123 F.3d 456\<close> and nothing else, the extraction returns four
  citations (the first and the last with the same raw text), and the language model
  reports high-confidence support.
\<close>

definition example_cluster :: cluster where
  "example_cluster = \<lparr>cl_id = Some ''77'', cl_case_name = Some ''Smith v. Jones'',
     cl_sub_opinions = None, cl_html_with_citations = None,
     cl_plain_text = Some ''The court held defendants owed a duty...'',
     cl_other_keys = False\<rparr>"

definition example_extraction :: "extracted_citation list" where
  "example_extraction =
     [\<lparr>ex_raw_text = ''Smith v. Jones, 123 F.3d 456'', ex_citation_type = ''case'',
       ex_proposition = ''Defendants owe a duty of care.''\<rparr>,
      \<lparr>ex_raw_text = ''G.L. c. 93A'', ex_citation_type = ''statute'',
       ex_proposition = ''Unfair practices are unlawful.''\<rparr>,
      \<lparr>ex_raw_text = ''Doe v. Roe, 1 U.S. 1'', ex_citation_type = ''case'',
       ex_proposition = ''Landlords are strictly liable.''\<rparr>,
      \<lparr>ex_raw_text = ''Smith v. Jones, 123 F.3d 456'', ex_citation_type = ''case'',
       ex_proposition = ''A duty extends to visitors.''\<rparr>]"

definition example_services :: services where
  "example_services =
     \<lparr>make_key = (\<lambda>raw. raw),
      post_citation_lookup = (\<lambda>n raw.
        if raw = ''Smith v. Jones, 123 F.3d 456''
        then Returns [\<lparr>lm_status = Some 200, lm_clusters = [example_cluster]\<rparr>]
        else Returns [\<lparr>lm_status = Some 404, lm_clusters = []\<rparr>]),
      get_opinion = (\<lambda>n url. Raises (HTTPStatusError 404)),
      text_content = (\<lambda>html. html),
      parse_extraction = (\<lambda>n text. Returns (Some example_extraction)),
      parse_support = (\<lambda>n citation_text proposition opinion.
        Returns (Some \<lparr>supports_proposition = True, confidence = ''high'',
                        reasoning = ''The opinion states the duty.'',
                        relevant_excerpt = None\<rparr>))\<rparr>"

definition empty_world :: world where
  "empty_world = \<lparr>cache = Map.empty, requests = 0, llm_calls = 0\<rparr>"

text \<open>
  The metadata of the example complaint.
\<close>

definition example_metadata :: metadata where
  "example_metadata = \<lparr>md_scenario_id = Some ''negligence_01'',
     md_category = Some ''negligence'', md_model = Some ''gpt-5-mini''\<rparr>"

text \<open>
  An opinion of 40000 characters, and a language model that rejects the first request as
  too long and then reports no support with confidence low, high and medium.
\<close>

definition long_opinion :: string where
  "long_opinion = replicate 40000 CHR ''x''"

definition chunking_services :: services where
  "chunking_services = example_services
     \<lparr>parse_support := (\<lambda>n citation_text proposition opinion.
        if n = 0 then Raises (BadRequestError ''Maximum context length exceeded'')
        else Returns (Some \<lparr>supports_proposition = False,
               confidence = (if n = 1 then ''low'' else if n = 2 then ''high'' else ''medium''),
               reasoning = ''Not addressed.'', relevant_excerpt = None\<rparr>))\<rparr>"

text \<open>
  A document that cites a subsection \<open>G.L. c. 93A, s. 9 (1)\<close> and then the section
  \<open>G.L. c. 93A, s. 9\<close> twice.
\<close>

definition clash_services :: services where
  "clash_services = example_services
     \<lparr>parse_extraction := (\<lambda>n text. Returns (Some
        [\<lparr>ex_raw_text = ''G.L. c. 93A, s. 9 (1)'', ex_citation_type = ''statute'',
          ex_proposition = ''A consumer may bring an action.''\<rparr>,
         \<lparr>ex_raw_text = ''G.L. c. 93A, s. 9'', ex_citation_type = ''statute'',
          ex_proposition = ''A demand letter is required.''\<rparr>,
         \<lparr>ex_raw_text = ''G.L. c. 93A, s. 9'', ex_citation_type = ''statute'',
          ex_proposition = ''Damages may be multiplied.''\<rparr>]))\<rparr>"

section \<open>Properties of the retry policy\<close>

lemma handler_delay_retried:
  "spec_retried e \<Longrightarrow> attempt < 1024 \<Longrightarrow>
   handler_delay base_delay max_delay attempt e = Inr (spec_delay base_delay max_delay attempt e)"
  by (cases e)
     (auto simp: spec_retried_def handler_delay_def spec_delay_def times_power_of_two_def)

lemma handler_delay_not_retried:
  "\<not> spec_retried e \<Longrightarrow> handler_delay base_delay max_delay attempt e = Inl e"
  by (cases e) (auto simp: spec_retried_def handler_delay_def)

lemma handler_delay_overflow:
  "spec_retried e \<Longrightarrow> 1024 \<le> attempt \<Longrightarrow>
   handler_delay base_delay max_delay attempt e = Inl OverflowError"
  by (cases e) (auto simp: spec_retried_def handler_delay_def times_power_of_two_def)

lemma spec_delay_nonneg:
  "0 \<le> base_delay \<Longrightarrow> 0 \<le> max_delay \<Longrightarrow> 0 \<le> spec_delay base_delay max_delay attempt e"
  by (simp add: spec_delay_def)

lemma spec_delay_le: "spec_delay base_delay max_delay attempt e \<le> max_delay"
  by (simp add: spec_delay_def)

lemma time_sleep_iff: "time_sleep secs = None \<longleftrightarrow> 0 \<le> secs \<and> secs \<le> sleep_limit"
  by (auto simp: time_sleep_def sleep_limit_def)

lemma time_sleep_returns: "0 \<le> secs \<Longrightarrow> secs \<le> 10 ^ 9 \<Longrightarrow> time_sleep secs = None"
  by (simp add: time_sleep_def sleep_limit_def)

lemma retry_loop_run:
  assumes nonneg: "0 \<le> base_delay" "0 \<le> max_delay" and short: "max_delay \<le> 10 ^ 9"
    and k: "k \<le> m" "int m = max_retries" "k \<le> 1024"
    and fails: "\<forall>i<k. fn i = Raises (es ! i) \<and> spec_retried (es ! i)"
    and a: "a \<le> k"
  shows "retry_loop fn max_retries base_delay max_delay [a..<Suc m] lst a sleeps =
         retry_loop fn max_retries base_delay max_delay [k..<Suc m]
           (if a < k then Some (es ! (k - 1)) else lst) k
           (sleeps @ map (\<lambda>i. spec_delay base_delay max_delay i (es ! i)) [a..<k])"
  using a
proof (induction "k - a" arbitrary: a lst sleeps)
  case 0
  then show ?case by simp
next
  case (Suc d)
  then have ak: "a < k" and d: "d = k - Suc a" and le: "Suc a \<le> k" by simp_all
  from ak k have am: "a < Suc m" "int a < max_retries" "a < 1024" by simp_all
  from fails ak have fa: "fn a = Raises (es ! a)" "spec_retried (es ! a)" by simp_all
  have slept: "time_sleep (spec_delay base_delay max_delay a (es ! a)) = None"
    using spec_delay_nonneg [OF nonneg, of a "es ! a"]
      spec_delay_le [of base_delay max_delay a "es ! a"] short
    by (intro time_sleep_returns) simp_all
  have step: "retry_loop fn max_retries base_delay max_delay [a..<Suc m] lst a sleeps =
        retry_loop fn max_retries base_delay max_delay [Suc a..<Suc m] (Some (es ! a)) (Suc a)
          (sleeps @ [spec_delay base_delay max_delay a (es ! a)])"
    using am(1,2) fa slept
    by (simp add: upt_conv_Cons handler_delay_retried [OF fa(2) am(3)] del: upt_Suc)
  have lst: "(if Suc a < k then Some (es ! (k - 1)) else Some (es ! a)) = Some (es ! (k - 1))"
    using le by (cases "Suc a = k") auto
  show ?case
    unfolding step Suc.hyps(1) [OF d le] lst using ak
    by (simp add: upt_conv_Cons del: upt_Suc)
qed

text \<open>
  Where the arithmetic of the delays ends: when the first 1025 invocations fail with
  retried failures and more than 1023 retries are allowed, the handler of attempt 1024
  cannot compute its delay, and the wrapper raises \<open>OverflowError\<close> after 1025
  invocations, whatever \<open>max_retries\<close> is. A negative base delay makes the first sleep
  raise \<open>ValueError\<close>.
\<close>

lemma retry_with_backoff_overflow:
  assumes "1024 \<le> max_retries" and "0 \<le> base_delay" and "0 \<le> max_delay"
    and "max_delay \<le> 10 ^ 9"
    and "\<forall>i<1025. fn i = Raises (es ! i) \<and> spec_retried (es ! i)"
  shows "retry_with_backoff fn max_retries base_delay max_delay =
           (Inl OverflowError, 1025,
            map (\<lambda>i. spec_delay base_delay max_delay i (es ! i)) [0..<1024])"
proof -
  define m where "m = nat max_retries"
  have m: "int m = max_retries" "1024 \<le> m" "nat (max_retries + 1) = Suc m"
    using assms(1) by (simp_all add: m_def)
  have fails: "\<forall>i<1024. fn i = Raises (es ! i) \<and> spec_retried (es ! i)"
    using assms(5) by simp
  have final: "fn 1024 = Raises (es ! 1024)" "spec_retried (es ! 1024)"
    using assms(5) by simp_all
  have run: "retry_with_backoff fn max_retries base_delay max_delay =
      retry_loop fn max_retries base_delay max_delay [1024..<Suc m] (Some (es ! 1023)) 1024
        (map (\<lambda>i. spec_delay base_delay max_delay i (es ! i)) [0..<1024])"
    unfolding retry_with_backoff_def m(3)
    using retry_loop_run [OF assms(2,3,4) m(2,1) _ fails, of 0 None "[]"] by simp
  have cons: "[1024..<Suc m] = 1024 # [1025..<Suc m]"
    using m(2) by (simp add: upt_conv_Cons del: upt_Suc)
  show ?thesis
    unfolding run cons
    by (simp add: final handler_delay_overflow [OF final(2)])
qed

lemma retry_with_backoff_negative_delay:
  "retry_with_backoff (\<lambda>i. Raises (HTTPStatusError 500) :: nat outcome) 3 (- 1) 30 =
     (Inl ValueError, 1, [])"
  by code_simp

text \<open>
  Claim C1. Let \<open>max_retries\<close> and the two delays be non-negative, \<open>max_delay\<close> at
  most \<open>10 ^ 9\<close> seconds, and let the first \<open>k \<le> max_retries\<close> invocations fail
  with retried failures (status 429, 400 or \<open>\<ge> 500\<close>, or a connection-level
  failure), with \<open>k < 1024\<close>, so that every delay can be computed and slept. Then the
  wrapper has slept \<open>min (base_delay * 2 ^ i [* 2 for 429]) max_delay\<close> after each
  attempt \<open>i < k\<close>, and
  \<^item> if invocation \<open>k\<close> returns, its value is returned after \<open>k + 1\<close> invocations;
  \<^item> if invocation \<open>k\<close> fails with any other 4xx status, that error is raised at once,
    after \<open>k + 1\<close> invocations (exactly one when \<open>k = 0\<close>);
  \<^item> if invocation \<open>k = max_retries\<close> fails with a retried failure, that last failure
    is raised after \<open>max_retries + 1\<close> invocations, with no further sleep.
  The defaults are \<open>max_retries = 3\<close>, \<open>base_delay = 1\<close>, \<open>max_delay = 30\<close>.
\<close>

theorem retry_with_backoff_policy:
  assumes "0 \<le> max_retries" and "0 \<le> base_delay" and "0 \<le> max_delay"
    and "max_delay \<le> 10 ^ 9"
    and "k \<le> nat max_retries" and "k < 1024"
    and "\<forall>i<k. fn i = Raises (es ! i) \<and> spec_retried (es ! i)"
  shows
    "(\<forall>v. fn k = Returns v \<longrightarrow>
        retry_with_backoff fn max_retries base_delay max_delay =
          (Inr v, Suc k, map (\<lambda>i. spec_delay base_delay max_delay i (es ! i)) [0..<k])) \<and>
     (\<forall>s. fn k = Raises (HTTPStatusError s) \<and> 400 \<le> s \<and> s < 500 \<and> s \<noteq> 400 \<and> s \<noteq> 429 \<longrightarrow>
        retry_with_backoff fn max_retries base_delay max_delay =
          (Inl (HTTPStatusError s), Suc k,
           map (\<lambda>i. spec_delay base_delay max_delay i (es ! i)) [0..<k])) \<and>
     (\<forall>e. fn k = Raises e \<and> spec_retried e \<and> k = nat max_retries \<longrightarrow>
        retry_with_backoff fn max_retries base_delay max_delay =
          (Inl e, Suc k, map (\<lambda>i. spec_delay base_delay max_delay i (es ! i)) [0..<k])) \<and>
     retry_with_backoff_default fn = retry_with_backoff fn 3 1 30"
proof -
  define m where "m = nat max_retries"
  let ?D = "map (\<lambda>i. spec_delay base_delay max_delay i (es ! i)) [0..<k]"
  let ?lst = "if 0 < k then Some (es ! (k - 1)) else None"
  have m: "int m = max_retries" "k \<le> m" "nat (max_retries + 1) = Suc m"
    using assms(1,5) by (simp_all add: m_def)
  have k: "k \<le> 1024"
    using assms(6) by simp
  have run: "retry_with_backoff fn max_retries base_delay max_delay =
      retry_loop fn max_retries base_delay max_delay [k..<Suc m] ?lst k ?D"
    unfolding retry_with_backoff_def m(3)
    using retry_loop_run [OF assms(2,3,4) m(2,1) k assms(7), of 0 None "[]"] by simp
  have cons: "[k..<Suc m] = k # [Suc k..<Suc m]"
    using m(2) by (simp add: upt_conv_Cons del: upt_Suc)
  have ret: "retry_with_backoff fn max_retries base_delay max_delay = (Inr v, Suc k, ?D)"
    if "fn k = Returns v" for v
    unfolding run cons using that by simp
  have other: "retry_with_backoff fn max_retries base_delay max_delay =
      (Inl (HTTPStatusError s), Suc k, ?D)"
    if "fn k = Raises (HTTPStatusError s) \<and> 400 \<le> s \<and> s < 500 \<and> s \<noteq> 400 \<and> s \<noteq> 429" for s
    unfolding run cons using that by (simp add: handler_delay_def)
  have exhausted: "retry_with_backoff fn max_retries base_delay max_delay = (Inl e, Suc k, ?D)"
    if "fn k = Raises e \<and> spec_retried e \<and> k = nat max_retries" for e
  proof -
    from that have fk: "fn k = Raises e" and re: "spec_retried e" and km: "k = m"
      unfolding m_def by blast+
    have rest: "[Suc k..<Suc m] = []" and nolt: "\<not> int k < max_retries"
      using m(1) km by simp_all
    show ?thesis
      unfolding run cons rest by (simp add: fk handler_delay_retried [OF re assms(6)] nolt)
  qed
  have "retry_with_backoff_default fn = retry_with_backoff fn 3 1 30"
    by (simp add: retry_with_backoff_default_def)
  with ret other exhausted show ?thesis
    by blast
qed

text \<open>
  With the defaults: two failures with status 500 and then a value; status 404; status
  429 on every attempt; a read timeout on every attempt.
\<close>

theorem retry_with_backoff_policy_witness:
  "retry_with_backoff_default
     (\<lambda>i. if i < 2 then Raises (HTTPStatusError 500) else Returns (7::nat)) =
     (Inr 7, 3, [1, 2]) \<and>
   retry_with_backoff_default (\<lambda>i. Raises (HTTPStatusError 404) :: nat outcome) =
     (Inl (HTTPStatusError 404), 1, []) \<and>
   retry_with_backoff_default (\<lambda>i. Raises (HTTPStatusError 429) :: nat outcome) =
     (Inl (HTTPStatusError 429), 4, [2, 4, 8]) \<and>
   retry_with_backoff_default (\<lambda>i. Raises ReadTimeout :: nat outcome) =
     (Inl ReadTimeout, 4, [1, 2, 4])"
proof -
  have up: "[0..<2] = [0, 1]" "[0..<3] = [0, 1, 2]" "[0..<0] = []"
    by (simp_all add: upt_rec)
  let ?f1 = "\<lambda>i::nat. if i < 2 then Raises (HTTPStatusError 500) else Returns (7::nat)"
  have "retry_with_backoff_default ?f1 = (Inr 7, 3, [1, 2])"
    using retry_with_backoff_policy
      [of 3 1 30 2 ?f1 "[HTTPStatusError 500, HTTPStatusError 500]"]
    by (simp add: spec_retried_def spec_delay_def up less_Suc_eq numeral_2_eq_2)
  moreover
  let ?f2 = "\<lambda>i::nat. Raises (HTTPStatusError 404) :: nat outcome"
  have "retry_with_backoff_default ?f2 = (Inl (HTTPStatusError 404), 1, [])"
    using retry_with_backoff_policy [of 3 1 30 0 ?f2 "[]"]
    by simp
  moreover
  let ?f3 = "\<lambda>i::nat. Raises (HTTPStatusError 429) :: nat outcome"
  have "retry_with_backoff_default ?f3 = (Inl (HTTPStatusError 429), 4, [2, 4, 8])"
    using retry_with_backoff_policy [of 3 1 30 3 ?f3 "replicate 4 (HTTPStatusError 429)"]
    by (simp add: spec_retried_def spec_delay_def up less_Suc_eq numeral_3_eq_3)
  moreover
  let ?f4 = "\<lambda>i::nat. Raises ReadTimeout :: nat outcome"
  have "retry_with_backoff_default ?f4 = (Inl ReadTimeout, 4, [1, 2, 4])"
    using retry_with_backoff_policy [of 3 1 30 3 ?f4 "replicate 4 ReadTimeout"]
    by (simp add: spec_retried_def spec_delay_def up less_Suc_eq numeral_3_eq_3)
  ultimately show ?thesis by simp
qed

section \<open>Properties of the chunker\<close>

lemma py_slice_nat:
  "py_slice text (int s) (int s + int sz) = take sz (drop s text)"
  by (auto simp: py_slice_def py_index_def Let_def min_def nat_add_distrib)

lemma chunk_loop_windows:
  assumes "overlap < sz"
  shows "chunk_loop text (int sz) (int overlap) (int start) chunks =
         Some (chunks @ windows text sz (sz - overlap) start)"
  using assms
proof (induction "length text - start" arbitrary: start chunks rule: less_induct)
  case less
  show ?case
  proof (cases "start < length text")
    case False
    then show ?thesis
      by (subst chunk_loop.simps, subst windows.simps) simp
  next
    case True
    have step: "int start + int sz - int overlap = int (start + (sz - overlap))"
      using less.prems by simp
    have "length text - (start + (sz - overlap)) < length text - start"
      using True less.prems by simp
    from less.hyps [OF this less.prems]
    have IH: "\<And>cs. chunk_loop text (int sz) (int overlap) (int (start + (sz - overlap))) cs =
          Some (cs @ windows text sz (sz - overlap) (start + (sz - overlap)))" .
    have "chunk_loop text (int sz) (int overlap) (int start) chunks =
          chunk_loop text (int sz) (int overlap) (int start + int sz - int overlap)
            (chunks @ [py_slice text (int start) (int start + int sz)])"
      using True by (subst chunk_loop.simps) (simp add: Let_def)
    also have "\<dots> = Some ((chunks @ [take sz (drop start text)]) @
          windows text sz (sz - overlap) (start + (sz - overlap)))"
      unfolding step py_slice_nat by (rule IH)
    also have "\<dots> = Some (chunks @ windows text sz (sz - overlap) start)"
      using True less.prems by (subst (2) windows.simps) simp
    finally show ?thesis .
  qed
qed

lemma chunk_loop_returns_progress:
  assumes "chunk_loop text chunk_size overlap start chunks = Some y"
  shows "\<not> (chunk_size \<le> overlap \<and> start < int (length text))"
  by (rule chunk_loop.raw_induct
        [where P = "\<lambda>t cs ov st acc r. \<not> (cs \<le> ov \<and> st < int (length t))", OF _ assms])
     (force simp: Let_def split: if_splits)

lemma chunk_loop_diverges:
  assumes "chunk_size \<le> overlap" and "start < int (length text)"
  shows "chunk_loop text chunk_size overlap start chunks = None"
  using assms chunk_loop_returns_progress [of "text" chunk_size overlap start chunks]
  by (cases "chunk_loop text chunk_size overlap start chunks") auto

lemma windows_length_iff:
  "0 < st \<Longrightarrow> k < length (windows text sz st s) \<longleftrightarrow> s + k * st < length text"
proof (induction k arbitrary: s)
  case 0
  then show ?case by (subst windows.simps) simp
next
  case (Suc k)
  from Suc.prems Suc.IH [of "s + st"] show ?case
    by (subst windows.simps) (auto simp: algebra_simps)
qed

lemma windows_nth:
  "0 < st \<Longrightarrow> k < length (windows text sz st s) \<Longrightarrow>
   windows text sz st s ! k = take sz (drop (s + k * st) text)"
proof (induction k arbitrary: s)
  case 0
  then show ?case by (subst windows.simps, subst (asm) windows.simps) (simp split: if_splits)
next
  case (Suc k)
  from Suc.prems have "s < length text"
    by (subst (asm) windows.simps) (simp split: if_splits)
  with Suc.prems have "k < length (windows text sz st (s + st))"
    by (subst (asm) windows.simps) simp
  from Suc.IH [OF Suc.prems(1) this] \<open>s < length text\<close> Suc.prems(1) show ?case
    by (subst windows.simps) (simp add: algebra_simps)
qed

lemma windows_drop_overlap:
  "ov < sz \<Longrightarrow> concat (map (drop ov) (windows text sz (sz - ov) s)) = drop (s + ov) text"
proof (induction "length text - s" arbitrary: s rule: less_induct)
  case less
  show ?case
  proof (cases "s < length text")
    case False
    then show ?thesis by (subst windows.simps) simp
  next
    case True
    have "length text - (s + (sz - ov)) < length text - s"
      using True less.prems by simp
    from less.hyps [OF this less.prems]
    have IH: "concat (map (drop ov) (windows text sz (sz - ov) (s + (sz - ov)))) =
              drop (s + (sz - ov) + ov) text" .
    have A: "drop ov (take sz (drop s text)) = take (sz - ov) (drop (s + ov) text)"
      by (simp add: drop_take add.commute)
    have "s + (sz - ov) + ov = (sz - ov) + (s + ov)"
      by simp
    then have B: "drop (s + (sz - ov) + ov) text = drop (sz - ov) (drop (s + ov) text)"
      by (simp only: drop_drop)
    have C: "windows text sz (sz - ov) s =
             take sz (drop s text) # windows text sz (sz - ov) (s + (sz - ov))"
      using True less.prems by (subst windows.simps) simp
    show ?thesis
      by (simp only: C list.map concat.simps A IH B append_take_drop_id)
  qed
qed

lemma chunk_text_windows:
  assumes "ov < sz" and "sz < length text"
  shows "chunk_text text (int sz) (int ov) = Some (windows text sz (sz - ov) 0)"
  using assms chunk_loop_windows [of ov sz "text" 0 "[]"] by (simp add: chunk_text_def)

lemma windows_head:
  assumes "ov < sz" and "sz < length text"
  shows "windows text sz (sz - ov) 0 = take sz text # windows text sz (sz - ov) (sz - ov)"
  using assms by (subst windows.simps) auto

lemma chunk_text_reconstruct_nat:
  assumes "ov < sz" and "sz < length text"
  shows "\<exists>c cs. chunk_text text (int sz) (int ov) = Some (c # cs) \<and>
           c @ concat (map (drop ov) cs) = text"
proof -
  have "take sz text @ concat (map (drop ov) (windows text sz (sz - ov) (sz - ov))) = text"
    using assms by (simp add: windows_drop_overlap)
  then show ?thesis
    using assms by (simp add: chunk_text_windows windows_head)
qed

lemma take_min_length: "take (min k (length xs)) xs = take k xs"
  by (simp add: min_def)

lemma share_arith:
  fixes a n sz ov :: nat
  assumes "ov < sz" and "a + (sz - ov) < n"
  shows "min sz (n - a) - min ov (n - (a + (sz - ov))) = sz - ov"
    and "a + min sz (n - a) = a + (sz - ov) + min ov (n - (a + (sz - ov)))"
    and "min sz (n - a) = sz \<Longrightarrow> min ov (n - (a + (sz - ov))) = ov"
    and "min ov (min sz (n - (a + (sz - ov)))) = min ov (n - (a + (sz - ov)))"
  using assms by arith+

lemma windows_share:
  assumes ov: "ov < sz" and succ: "Suc i < length (windows text sz (sz - ov) 0)"
  defines "cs \<equiv> windows text sz (sz - ov) 0"
  defines "k \<equiv> min ov (length (cs ! Suc i))"
  shows "drop (length (cs ! i) - k) (cs ! i) = take k (cs ! Suc i)"
    and "i * (sz - ov) + length (cs ! i) = Suc i * (sz - ov) + k"
    and "length (cs ! i) = sz \<Longrightarrow> k = ov"
proof -
  let ?st = "sz - ov"
  define a where "a = i * ?st"
  let ?b = "a + ?st"
  have st: "0 < ?st" using ov by simp
  have b: "?b < length text"
    using windows_length_iff [OF st, of "Suc i" "text" sz 0] succ by (simp add: add.commute a_def)
  have "i < length (windows text sz ?st 0)" using succ by simp
  from windows_nth [OF st this] have w: "cs ! i = take sz (drop a text)"
    by (simp add: cs_def a_def)
  from windows_nth [OF st succ] have w': "cs ! Suc i = take sz (drop ?b text)"
    by (simp add: cs_def add.commute a_def)
  have lw: "length (cs ! i) = min sz (length text - a)"
    by (simp add: w)
  have k: "k = min ov (length text - ?b)"
    using share_arith(4) [OF ov b] by (simp add: k_def w' min.commute)
  have len: "length (cs ! i) - k = ?st"
    unfolding lw k by (rule share_arith(1) [OF ov b])
  have "a + length (cs ! i) = ?b + k"
    unfolding lw k by (rule share_arith(2) [OF ov b])
  then show "i * ?st + length (cs ! i) = Suc i * ?st + k"
    by (simp add: a_def)
  show "length (cs ! i) = sz \<Longrightarrow> k = ov"
    unfolding lw k by (rule share_arith(3) [OF ov b])
  have "drop ?st (cs ! i) = take ov (drop ?b text)"
    using ov by (simp add: w drop_take add.commute)
  also have "\<dots> = take k (drop ?b text)"
    unfolding k using take_min_length [of ov "drop ?b text"] by simp
  also have "\<dots> = take k (cs ! Suc i)"
    using ov by (simp add: w' k min_def)
  finally show "drop (length (cs ! i) - k) (cs ! i) = take k (cs ! Suc i)"
    by (simp only: len)
qed

lemma windows_cover:
  assumes ov: "ov < sz" and p: "p < length text"
  defines "cs \<equiv> windows text sz (sz - ov) 0"
  shows "\<exists>k j. k < length cs \<and> j < length (cs ! k) \<and> cs ! k ! j = text ! p \<and>
           p = k * (sz - ov) + j"
proof -
  let ?st = "sz - ov"
  define k where "k = p div ?st"
  define j where "j = p mod ?st"
  define a where "a = k * ?st"
  have st: "0 < ?st" using ov by simp
  have pj: "p = a + j"
    unfolding a_def k_def j_def by (rule div_mult_mod_eq [symmetric])
  have j: "j < ?st" unfolding j_def using st by (rule mod_less_divisor)
  have "0 + k * ?st < length text" using p pj by (simp add: a_def)
  then have klen: "k < length cs"
    unfolding cs_def using windows_length_iff [OF st, of k "text" sz 0] by simp
  from windows_nth [OF st klen [unfolded cs_def]]
  have w: "cs ! k = take sz (drop a text)" by (simp add: cs_def a_def)
  have jlen: "j < length (cs ! k)"
    using j p ov unfolding w pj by simp arith
  have "cs ! k ! j = text ! (a + j)"
    using jlen j ov p unfolding w pj by simp
  with klen jlen pj show ?thesis unfolding a_def by blast
qed

lemma windows_last:
  assumes ov: "ov < sz" and ne: "text \<noteq> []"
  defines "cs \<equiv> windows text sz (sz - ov) 0"
  shows "cs \<noteq> [] \<and> last cs \<noteq> [] \<and> last (last cs) = last text"
proof -
  let ?st = "sz - ov"
  have st: "0 < ?st" using ov by simp
  have "0 < length cs"
    unfolding cs_def using windows_length_iff [OF st, of 0 "text" sz 0] ne by simp
  then have cs: "cs \<noteq> []" by simp
  let ?m = "length cs - 1"
  have m: "?m < length cs" using cs by simp
  then have lo: "?m * ?st < length text"
    unfolding cs_def using windows_length_iff [OF st, of "length (windows text sz ?st 0) - 1" "text" sz 0] by simp
  have "\<not> Suc ?m < length cs" using cs by simp
  then have hi: "length text \<le> Suc ?m * ?st"
    unfolding cs_def using windows_length_iff [OF st, of "Suc (length (windows text sz ?st 0) - 1)" "text" sz 0]
    by simp
  from windows_nth [OF st m [unfolded cs_def]]
  have "last cs = take sz (drop (?m * ?st) text)"
    using cs by (simp add: last_conv_nth cs_def)
  moreover have "length (drop (?m * ?st) text) \<le> sz"
    using hi ov by simp
  ultimately have l: "last cs = drop (?m * ?st) text" by simp
  with lo cs show ?thesis by (simp add: last_drop)
qed

lemma py_slice_from_nat: "0 \<le> a \<Longrightarrow> py_slice_from xs a = drop (nat a) xs"
  by (auto simp: py_slice_from_def py_slice_def py_index_def Let_def min_def)

lemma chunk_text_valid_windows:
  assumes "0 \<le> overlap" and "overlap < chunk_size" and "chunk_size < int (length text)"
  shows "chunk_text text chunk_size overlap =
         Some (windows text (nat chunk_size) (nat chunk_size - nat overlap) 0)"
  using assms chunk_text_windows [of "nat overlap" "nat chunk_size" "text"] by simp

text \<open>
  With the default chunk size and overlap the chunker always returns.
\<close>

lemma chunk_text_default_total: "\<exists>chunks. chunk_text_default text = Some chunks"
proof (cases "int (length text) \<le> 20000")
  case True
  then show ?thesis by (simp add: chunk_text_default_def chunk_text_def)
next
  case False
  then show ?thesis
    unfolding chunk_text_default_def
    using chunk_text_valid_windows [of 500 20000 "text"] by simp
qed

text \<open>
  Claim C2, as stated, fails. With \<open>chunk_size = 3\<close> and \<open>overlap = 2\<close> the text
  \<open>abcd\<close> gives the windows \<open>abc\<close>, \<open>bcd\<close>, \<open>cd\<close>, \<open>d\<close>: the window
  \<open>cd\<close> has the successor \<open>d\<close>, which has one character only, so the two do not
  share two characters.
\<close>

theorem chunk_text_short_tail_counterexample:
  "chunk_text ''abcd'' 3 2 = Some [''abc'', ''bcd'', ''cd'', ''d''] \<and>
   \<not> shares_overlap 2 ''cd'' ''d''"
proof -
  have "chunk_text ''abcd'' 3 2 = Some [''abc'', ''bcd'', ''cd'', ''d'']"
    by code_simp
  then show ?thesis by (simp add: shares_overlap_def)
qed

text \<open>
  Claim C2, amended. For a text longer than the chunk size and \<open>0 \<le> overlap < chunk_size\<close>
  the chunker returns, window \<open>i\<close> is the slice of length \<open>chunk_size\<close> that begins at
  position \<open>i * (chunk_size - overlap)\<close>, and a window with a successor shares with it
  exactly \<open>min overlap (length of the successor)\<close> characters: its last that many
  characters are the successor's first, and its end lies that many positions after the
  successor's start. A window of the full chunk size shares exactly \<open>overlap\<close>
  characters with its successor.
\<close>

theorem chunk_text_consecutive_overlap:
  assumes "0 \<le> overlap" and "overlap < chunk_size" and "chunk_size < int (length text)"
  shows "\<exists>cs. chunk_text text chunk_size overlap = Some cs \<and>
     (\<forall>i. Suc i < length cs \<longrightarrow>
        cs ! i = take (nat chunk_size) (drop (i * nat (chunk_size - overlap)) text) \<and>
        cs ! Suc i = take (nat chunk_size) (drop (Suc i * nat (chunk_size - overlap)) text) \<and>
        shares_overlap (min (nat overlap) (length (cs ! Suc i))) (cs ! i) (cs ! Suc i) \<and>
        i * nat (chunk_size - overlap) + length (cs ! i) =
          Suc i * nat (chunk_size - overlap) + min (nat overlap) (length (cs ! Suc i)) \<and>
        (length (cs ! i) = nat chunk_size \<longrightarrow> shares_overlap (nat overlap) (cs ! i) (cs ! Suc i)))"
proof -
  define sz ov where "sz = nat chunk_size" and "ov = nat overlap"
  define cs where "cs = windows text sz (sz - ov) 0"
  have ov: "ov < sz" using assms by (simp add: sz_def ov_def)
  have st: "nat (chunk_size - overlap) = sz - ov"
    using assms by (simp add: sz_def ov_def nat_diff_distrib)
  have st0: "0 < sz - ov" using ov by simp
  have ret: "chunk_text text chunk_size overlap = Some cs"
    using chunk_text_valid_windows [OF assms] by (simp add: cs_def sz_def ov_def)
  have "cs ! i = take sz (drop (i * (sz - ov)) text) \<and>
        cs ! Suc i = take sz (drop (Suc i * (sz - ov)) text) \<and>
        shares_overlap (min ov (length (cs ! Suc i))) (cs ! i) (cs ! Suc i) \<and>
        i * (sz - ov) + length (cs ! i) = Suc i * (sz - ov) + min ov (length (cs ! Suc i)) \<and>
        (length (cs ! i) = sz \<longrightarrow> shares_overlap ov (cs ! i) (cs ! Suc i))"
    if succ: "Suc i < length cs" for i
  proof -
    let ?k = "min ov (length (cs ! Suc i))"
    from succ have i: "i < length cs" by simp
    have w: "cs ! i = take sz (drop (i * (sz - ov)) text)"
      using windows_nth [OF st0 i [unfolded cs_def]] by (simp add: cs_def)
    have w': "cs ! Suc i = take sz (drop (Suc i * (sz - ov)) text)"
      using windows_nth [OF st0 succ [unfolded cs_def]] by (simp add: cs_def)
    note sh = windows_share [OF ov succ [unfolded cs_def], folded cs_def]
    have le: "?k \<le> length (cs ! i)"
      using sh(2) by simp
    have so: "shares_overlap ?k (cs ! i) (cs ! Suc i)"
      unfolding shares_overlap_def using sh(1) le by simp
    have full: "shares_overlap ov (cs ! i) (cs ! Suc i)" if "length (cs ! i) = sz"
      using so sh(3) [OF that] by simp
    from w w' so sh(2) full show ?thesis by blast
  qed
  with ret show ?thesis
    unfolding st sz_def [symmetric] ov_def [symmetric] by blast
qed

text \<open>The windows of \<open>abcd\<close> for \<open>chunk_size = 3\<close>, \<open>overlap = 2\<close>.\<close>

theorem chunk_text_consecutive_overlap_witness:
  "(0::int) \<le> 2 \<and> (2::int) < 3 \<and> 3 < int (length ''abcd'') \<and>
   chunk_text ''abcd'' 3 2 = Some [''abc'', ''bcd'', ''cd'', ''d''] \<and>
   shares_overlap 2 ''abc'' ''bcd'' \<and> shares_overlap 1 ''cd'' ''d''"
proof -
  have ev: "chunk_text ''abcd'' 3 2 = Some [''abc'', ''bcd'', ''cd'', ''d'']"
    by code_simp
  have "(0::int) \<le> 2" and "(2::int) < 3" and "3 < int (length ''abcd'')"
    by simp_all
  from chunk_text_consecutive_overlap [OF this] ev
  have all: "\<forall>i. Suc i < length [''abc'', ''bcd'', ''cd'', ''d''] \<longrightarrow>
      shares_overlap (min (nat 2) (length ([''abc'', ''bcd'', ''cd'', ''d''] ! Suc i)))
        ([''abc'', ''bcd'', ''cd'', ''d''] ! i) ([''abc'', ''bcd'', ''cd'', ''d''] ! Suc i)"
    by auto
  from all [rule_format, of 0] have "shares_overlap 2 ''abc'' ''bcd''"
    by (simp add: numeral_2_eq_2)
  moreover from all [rule_format, of 2] have "shares_overlap 1 ''cd'' ''d''" by simp
  ultimately show ?thesis using ev by simp
qed

text \<open>
  Claim C3. For a text longer than the chunk size and an overlap with
  \<open>0 \<le> overlap < chunk_size\<close>, the chunker returns at least one chunk, and the first
  chunk followed by every later chunk with its first \<open>overlap\<close> characters removed
  (Python's \<open>chunk[overlap:]\<close>) is the original text.
\<close>

theorem chunk_text_reconstructs:
  assumes "0 \<le> overlap" and "overlap < chunk_size" and "chunk_size < int (length text)"
  shows "\<exists>c cs. chunk_text text chunk_size overlap = Some (c # cs) \<and>
           c @ concat (map (\<lambda>w. py_slice_from w overlap) cs) = text"
proof -
  have "\<exists>c cs. chunk_text text (int (nat chunk_size)) (int (nat overlap)) = Some (c # cs) \<and>
           c @ concat (map (drop (nat overlap)) cs) = text"
    using assms by (intro chunk_text_reconstruct_nat) auto
  then show ?thesis
    using assms by (simp add: py_slice_from_nat)
qed

text \<open>The text \<open>abcdefghij\<close> in windows of 4 with overlap 1.\<close>

theorem chunk_text_reconstructs_witness:
  "(0::int) \<le> 1 \<and> (1::int) < 4 \<and> 4 < int (length ''abcdefghij'') \<and>
   chunk_text ''abcdefghij'' 4 1 = Some [''abcd'', ''defg'', ''ghij'', ''j''] \<and>
   ''abcd'' @ concat (map (\<lambda>w. py_slice_from w 1) [''defg'', ''ghij'', ''j'']) = ''abcdefghij''"
proof -
  have ev: "chunk_text ''abcdefghij'' 4 1 = Some [''abcd'', ''defg'', ''ghij'', ''j'']"
    by code_simp
  have "\<exists>c cs. chunk_text ''abcdefghij'' 4 1 = Some (c # cs) \<and>
           c @ concat (map (\<lambda>w. py_slice_from w 1) cs) = ''abcdefghij''"
    by (rule chunk_text_reconstructs) simp_all
  with ev show ?thesis by simp
qed

text \<open>
  Claim C4, as stated, fails: with \<open>chunk_size = 1\<close> and \<open>overlap = 1\<close> the start of
  the window never advances, and the loop on the text \<open>ab\<close> never returns.
\<close>

theorem chunk_text_diverges_counterexample:
  "chunk_text ''ab'' 1 1 = None"
  by (simp add: chunk_text_def chunk_loop_diverges)

text \<open>
  Claim C4, amended. When the text is no longer than the chunk size, or
  \<open>0 \<le> overlap < chunk_size\<close>, the chunker returns; every position of the text lies in
  a returned window (position \<open>p\<close> is character \<open>j\<close> of window \<open>k\<close> with
  \<open>p = k * (chunk_size - overlap) + j\<close>); and the last character of a non-empty text is
  the last character of the last window. When a non-empty text is longer than the chunk
  size and \<open>overlap \<ge> chunk_size\<close>, the chunker never returns.
\<close>

theorem chunk_text_terminates_and_covers:
  "(int (length text) \<le> chunk_size \<or> (0 \<le> overlap \<and> overlap < chunk_size) \<longrightarrow>
      (\<exists>cs. chunk_text text chunk_size overlap = Some cs \<and>
         (\<forall>p<length text. \<exists>k j. k < length cs \<and> j < length (cs ! k) \<and>
              cs ! k ! j = text ! p \<and> p = k * nat (chunk_size - overlap) + j) \<and>
         (text \<noteq> [] \<longrightarrow> cs \<noteq> [] \<and> last cs \<noteq> [] \<and> last (last cs) = last text))) \<and>
   (text \<noteq> [] \<and> chunk_size < int (length text) \<and> chunk_size \<le> overlap \<longrightarrow>
      chunk_text text chunk_size overlap = None)"
proof (intro conjI impI)
  assume "text \<noteq> [] \<and> chunk_size < int (length text) \<and> chunk_size \<le> overlap"
  then show "chunk_text text chunk_size overlap = None"
    by (simp add: chunk_text_def chunk_loop_diverges)
next
  assume a: "int (length text) \<le> chunk_size \<or> (0 \<le> overlap \<and> overlap < chunk_size)"
  show "\<exists>cs. chunk_text text chunk_size overlap = Some cs \<and>
         (\<forall>p<length text. \<exists>k j. k < length cs \<and> j < length (cs ! k) \<and>
              cs ! k ! j = text ! p \<and> p = k * nat (chunk_size - overlap) + j) \<and>
         (text \<noteq> [] \<longrightarrow> cs \<noteq> [] \<and> last cs \<noteq> [] \<and> last (last cs) = last text)"
  proof (cases "int (length text) \<le> chunk_size")
    case True
    then have "chunk_text text chunk_size overlap = Some [text]"
      by (simp add: chunk_text_def)
    moreover have "\<exists>k j. k < length [text] \<and> j < length ([text] ! k) \<and>
              [text] ! k ! j = text ! p \<and> p = k * nat (chunk_size - overlap) + j"
      if "p < length text" for p
      using that by (intro exI [of _ 0] exI [of _ p]) simp
    ultimately show ?thesis by simp
  next
    case False
    with a have v: "0 \<le> overlap" "overlap < chunk_size" "chunk_size < int (length text)"
      by auto
    define sz ov where "sz = nat chunk_size" and "ov = nat overlap"
    define cs where "cs = windows text sz (sz - ov) 0"
    have ov: "ov < sz" using v by (simp add: sz_def ov_def)
    have st: "nat (chunk_size - overlap) = sz - ov"
      using v by (simp add: sz_def ov_def nat_diff_distrib)
    have ret: "chunk_text text chunk_size overlap = Some cs"
      using chunk_text_valid_windows [OF v] by (simp add: cs_def sz_def ov_def)
    have cov: "\<forall>p<length text. \<exists>k j. k < length cs \<and> j < length (cs ! k) \<and>
              cs ! k ! j = text ! p \<and> p = k * (sz - ov) + j"
      using windows_cover [OF ov] unfolding cs_def by blast
    have lst: "text \<noteq> [] \<longrightarrow> cs \<noteq> [] \<and> last cs \<noteq> [] \<and> last (last cs) = last text"
      using windows_last [OF ov] unfolding cs_def by blast
    from ret cov lst show ?thesis unfolding st by blast
  qed
qed

text \<open>Both cases at concrete inputs.\<close>

theorem chunk_text_terminates_and_covers_witness:
  "chunk_text ''abcd'' 3 2 = Some [''abc'', ''bcd'', ''cd'', ''d''] \<and>
   last (last [''abc'', ''bcd'', ''cd'', ''d'']) = last ''abcd'' \<and>
   chunk_text ''ab'' 1 1 = None"
proof -
  have ev: "chunk_text ''abcd'' 3 2 = Some [''abc'', ''bcd'', ''cd'', ''d'']"
    by code_simp
  from chunk_text_terminates_and_covers [of "''abcd''" 3 2]
  have "\<exists>cs. chunk_text ''abcd'' 3 2 = Some cs \<and> last (last cs) = last ''abcd''"
    by auto
  with ev have "last (last [''abc'', ''bcd'', ''cd'', ''d'']) = last ''abcd''"
    by simp
  moreover from chunk_text_terminates_and_covers [of "''ab''" 1 1]
  have "chunk_text ''ab'' 1 1 = None" by simp
  ultimately show ?thesis using ev by simp
qed

section \<open>Properties of the validator\<close>

lemma cache_set_simps [simp]:
  "cache (cache_set svc w c v i n t e) =
     (cache w)(make_key svc (raw_text c) \<mapsto>
        \<lparr>cached_is_valid = v, cached_courtlistener_id = i, cached_case_name = n,
         cached_opinion_text = t, cached_error = e, cached_raw_text = raw_text c\<rparr>)"
  "requests (cache_set svc w c v i n t e) = requests w"
  "llm_calls (cache_set svc w c v i n t e) = llm_calls w"
  by (simp_all add: cache_set_def)

lemma validate_citation_cached:
  assumes "cache w (make_key svc (raw_text c)) = Some entry"
  shows "validate_citation svc w c =
    (None,
     (let c1 = c\<lparr>is_valid := Some (cached_is_valid entry),
                 courtlistener_id := cached_courtlistener_id entry,
                 opinion_text := cached_opinion_text entry\<rparr>;
          c2 = (if truthy (cached_case_name entry)
                then c1\<lparr>case_name := cached_case_name entry\<rparr> else c1)
      in if truthy (cached_error entry)
         then c2\<lparr>validation_error := cached_error entry\<rparr> else c2),
     w)"
  using assms by (simp add: validate_citation_def cache_get_def Let_def)

lemma validate_citation_caches:
  assumes "validate_citation svc w c = (None, c', w')"
  shows "raw_text c' = raw_text c \<and>
         (\<exists>entry. cache w' (make_key svc (raw_text c)) = Some entry \<and>
                  is_valid c' = Some (cached_is_valid entry))"
proof (cases "cache w (make_key svc (raw_text c))")
  case (Some entry)
  from assms show ?thesis
    unfolding validate_citation_cached [OF Some] using Some
    by (auto simp: Let_def split: if_splits)
next
  case None
  with assms show ?thesis
    by (auto simp: validate_citation_def cache_get_def found_def not_found_def Let_def
             split: prod.splits sum.splits option.splits if_splits)
qed

lemma validate_citation_miss_keeps_name:
  assumes "cache w (make_key svc (raw_text c)) = None" and "truthy (case_name c)"
    and "validate_citation svc w c = (e, c', w')"
  shows "case_name c' = case_name c"
  using assms
  by (auto simp: validate_citation_def cache_get_def found_def not_found_def Let_def
           split: prod.splits sum.splits option.splits if_splits)

lemma validate_citation_sets_validity:
  assumes "validate_citation svc w c = (None, c', w')"
  shows "is_valid c' \<noteq> None"
  using validate_citation_caches [OF assms] by auto

lemma with_retry_returns:
  assumes "request (requests w) = Returns v"
  shows "with_retry w request = (Inr v, w\<lparr>requests := Suc (requests w)\<rparr>)"
proof -
  have "[0..<nat (3 + 1)] = 0 # [1..<4]"
    by (simp add: upt_conv_Cons)
  then show ?thesis
    using assms
    by (simp add: with_retry_def retry_with_backoff_default_def retry_with_backoff_def)
qed

lemma example_first_validation:
  "validate_citation example_services empty_world (Citation ''Smith v. Jones, 123 F.3d 456'') =
     (None,
      (Citation ''Smith v. Jones, 123 F.3d 456'')\<lparr>
         case_name := Some ''Smith v. Jones'', is_valid := Some True,
         courtlistener_id := Some ''77'',
         opinion_text := Some ''The court held defendants owed a duty...''\<rparr>,
      \<lparr>cache = [''Smith v. Jones, 123 F.3d 456'' \<mapsto>
          \<lparr>cached_is_valid = True, cached_courtlistener_id = Some ''77'',
           cached_case_name = Some ''Smith v. Jones'',
           cached_opinion_text = Some ''The court held defendants owed a duty...'',
           cached_error = None, cached_raw_text = ''Smith v. Jones, 123 F.3d 456''\<rparr>],
       requests = 1, llm_calls = 0\<rparr>)"
proof -
  have "with_retry empty_world
          (\<lambda>n. post_citation_lookup example_services n ''Smith v. Jones, 123 F.3d 456'') =
        (Inr [\<lparr>lm_status = Some 200, lm_clusters = [example_cluster]\<rparr>],
         empty_world\<lparr>requests := Suc (requests empty_world)\<rparr>)"
    by (rule with_retry_returns) (simp add: example_services_def)
  then show ?thesis
    by (simp add: validate_citation_def cache_get_def lookup_citation_def found_def
          extract_opinion_text_def cluster_truthy_def truthy_def example_cluster_def
          empty_world_def Citation_def cache_set_def Let_def)
       (simp add: example_services_def)
qed

text \<open>
  Claim C5 holds on the lookup path (\<open>validate_citation_miss_keeps_name\<close>) and fails on
  the cache path: whenever the cache entry has a case name, \<open>validate_citation\<close> writes
  it onto the citation, whether or not the citation already carries one.
\<close>

theorem validate_citation_cached_name_overwrites:
  assumes "cache w (make_key svc (raw_text c)) = Some entry"
    and "truthy (cached_case_name entry)"
  shows "\<exists>c'. validate_citation svc w c = (None, c', w) \<and>
              case_name c' = cached_case_name entry"
  unfolding validate_citation_cached [OF assms(1)] using assms(2)
  by (simp add: Let_def)

text \<open>
  A citation that carries the case name \<open>Obergefell\<close> leaves \<open>validate_citation\<close>
  with the cached name \<open>Obergefell v. Hodges\<close>.
\<close>

theorem validate_citation_cached_name_overwrites_witness:
  "case_name ((Citation ''576 U.S. 644'')\<lparr>case_name := Some ''Obergefell''\<rparr>) =
     Some ''Obergefell'' \<and>
   case_name (fst (snd (validate_citation example_services
      (empty_world\<lparr>cache := [''576 U.S. 644'' \<mapsto>
          \<lparr>cached_is_valid = True, cached_courtlistener_id = Some ''1'',
           cached_case_name = Some ''Obergefell v. Hodges'', cached_opinion_text = None,
           cached_error = None, cached_raw_text = ''576 U.S. 644''\<rparr>]\<rparr>)
      ((Citation ''576 U.S. 644'')\<lparr>case_name := Some ''Obergefell''\<rparr>)))) =
     Some ''Obergefell v. Hodges''"
  using validate_citation_cached_name_overwrites
    [of "empty_world\<lparr>cache := [''576 U.S. 644'' \<mapsto>
          \<lparr>cached_is_valid = True, cached_courtlistener_id = Some ''1'',
           cached_case_name = Some ''Obergefell v. Hodges'', cached_opinion_text = None,
           cached_error = None, cached_raw_text = ''576 U.S. 644''\<rparr>]\<rparr>"
        example_services
        "(Citation ''576 U.S. 644'')\<lparr>case_name := Some ''Obergefell''\<rparr>"
        "\<lparr>cached_is_valid = True, cached_courtlistener_id = Some ''1'',
           cached_case_name = Some ''Obergefell v. Hodges'', cached_opinion_text = None,
           cached_error = None, cached_raw_text = ''576 U.S. 644''\<rparr>"]
  by (auto simp: example_services_def Citation_def truthy_def)

lemma validate_citations_all_skipped:
  "list_all (\<lambda>c. court c = Some ''STATUTE'' \<or> is_valid c \<noteq> None) cs \<Longrightarrow>
   validate_citations svc w cs = (None, cs, w)"
  by (induction cs) auto

text \<open>
  Claim C6. \<open>validate_citations\<close> passes over a citation whose court is \<open>STATUTE\<close> or
  whose validity is already set: the citation stays as it is and the state (cache and
  number of requests) is that of validating the rest; a list of such citations is
  returned unchanged in an unchanged state. After \<open>validate_citation\<close> has returned,
  validating the resulting citation again finds it in the cache and returns in the same
  state, so with no further request, and with the same validity; through
  \<open>validate_citations\<close> the second pass changes nothing at all.
\<close>

theorem validate_skips_and_is_at_most_once:
  "(court c = Some ''STATUTE'' \<or> is_valid c \<noteq> None \<longrightarrow>
      validate_citations svc w (c # cs) =
        (case validate_citations svc w cs of (e, cs', w') \<Rightarrow> (e, c # cs', w'))) \<and>
   ((\<forall>c\<in>set cs. court c = Some ''STATUTE'' \<or> is_valid c \<noteq> None) \<longrightarrow>
      validate_citations svc w cs = (None, cs, w)) \<and>
   (validate_citation svc w c = (None, c', w') \<longrightarrow>
      (\<exists>c''. validate_citation svc w' c' = (None, c'', w') \<and> is_valid c'' = is_valid c' \<and>
             is_valid c' \<noteq> None \<and>
             cache w' (make_key svc (raw_text c')) \<noteq> None)) \<and>
   (validate_citations svc w [c] = (None, [c'], w') \<longrightarrow>
      validate_citations svc w' [c'] = (None, [c'], w'))"
proof (intro conjI impI)
  assume "court c = Some ''STATUTE'' \<or> is_valid c \<noteq> None"
  then show "validate_citations svc w (c # cs) =
        (case validate_citations svc w cs of (e, cs', w') \<Rightarrow> (e, c # cs', w'))"
    by auto
next
  assume "\<forall>c\<in>set cs. court c = Some ''STATUTE'' \<or> is_valid c \<noteq> None"
  then show "validate_citations svc w cs = (None, cs, w)"
    by (intro validate_citations_all_skipped) (simp add: list_all_iff)
next
  assume v: "validate_citation svc w c = (None, c', w')"
  from validate_citation_caches [OF v] obtain entry
    where raw: "raw_text c' = raw_text c"
      and entry: "cache w' (make_key svc (raw_text c')) = Some entry"
      and valid: "is_valid c' = Some (cached_is_valid entry)"
    by auto
  show "\<exists>c''. validate_citation svc w' c' = (None, c'', w') \<and> is_valid c'' = is_valid c' \<and>
             is_valid c' \<noteq> None \<and>
             cache w' (make_key svc (raw_text c')) \<noteq> None"
    unfolding validate_citation_cached [OF entry] using entry valid
    by (simp add: Let_def)
next
  assume v: "validate_citations svc w [c] = (None, [c'], w')"
  show "validate_citations svc w' [c'] = (None, [c'], w')"
  proof (cases "court c = Some ''STATUTE'' \<or> is_valid c \<noteq> None")
    case True
    with v have "c' = c" "w' = w" by auto
    with True show ?thesis by auto
  next
    case False
    with v have "validate_citation svc w c = (None, c', w')"
      by (auto split: prod.splits option.splits)
    from validate_citation_sets_validity [OF this] show ?thesis by auto
  qed
qed

text \<open>
  A statute and an already resolved citation are skipped; the first validation of
  \<open>Smith v. Jones\<close> sends one request, the second none.
\<close>

theorem validate_skips_and_is_at_most_once_witness:
  "validate_citations example_services empty_world
     [(Citation ''G.L. c. 93A'')\<lparr>court := Some ''STATUTE''\<rparr>,
      (Citation ''1 U.S. 1'')\<lparr>is_valid := Some False\<rparr>] =
     (None,
      [(Citation ''G.L. c. 93A'')\<lparr>court := Some ''STATUTE''\<rparr>,
       (Citation ''1 U.S. 1'')\<lparr>is_valid := Some False\<rparr>],
      empty_world) \<and>
   (case validate_citation example_services empty_world
           (Citation ''Smith v. Jones, 123 F.3d 456'') of
      (e, c', w') \<Rightarrow>
        e = None \<and> is_valid c' = Some True \<and> requests w' = 1 \<and>
        (case validate_citation example_services w' c' of
           (e', c'', w'') \<Rightarrow> e' = None \<and> is_valid c'' = Some True \<and> requests w'' = 1))"
proof -
  let ?cs = "[(Citation ''G.L. c. 93A'')\<lparr>court := Some ''STATUTE''\<rparr>,
              (Citation ''1 U.S. 1'')\<lparr>is_valid := Some False\<rparr>]"
  have "validate_citations example_services empty_world ?cs = (None, ?cs, empty_world)"
    using validate_skips_and_is_at_most_once [of _ example_services empty_world ?cs]
    by (simp add: Citation_def)
  moreover
  let ?c1 = "(Citation ''Smith v. Jones, 123 F.3d 456'')\<lparr>
         case_name := Some ''Smith v. Jones'', is_valid := Some True,
         courtlistener_id := Some ''77'',
         opinion_text := Some ''The court held defendants owed a duty...''\<rparr>"
  let ?w1 = "\<lparr>cache = [''Smith v. Jones, 123 F.3d 456'' \<mapsto>
          \<lparr>cached_is_valid = True, cached_courtlistener_id = Some ''77'',
           cached_case_name = Some ''Smith v. Jones'',
           cached_opinion_text = Some ''The court held defendants owed a duty...'',
           cached_error = None, cached_raw_text = ''Smith v. Jones, 123 F.3d 456''\<rparr>],
       requests = 1, llm_calls = 0\<rparr>"
  note first = example_first_validation
  from validate_skips_and_is_at_most_once
    [of "Citation ''Smith v. Jones, 123 F.3d 456''" example_services empty_world "[]" ?c1 ?w1,
     THEN conjunct2, THEN conjunct2, THEN conjunct1, rule_format, OF first]
  obtain c'' where second: "validate_citation example_services ?w1 ?c1 = (None, c'', ?w1)"
    and valid: "is_valid c'' = is_valid ?c1"
    by blast
  have "case validate_citation example_services empty_world
           (Citation ''Smith v. Jones, 123 F.3d 456'') of
      (e, c', w') \<Rightarrow>
        e = None \<and> is_valid c' = Some True \<and> requests w' = 1 \<and>
        (case validate_citation example_services w' c' of
           (e', c'', w'') \<Rightarrow> e' = None \<and> is_valid c'' = Some True \<and> requests w'' = 1)"
    unfolding first prod.case second using valid by simp
  ultimately show ?thesis
    by blast
qed

section \<open>Properties of the proposition support evaluator\<close>

lemma insort_key_hd:
  "hd (insort_key f x ys) = (if ys = [] \<or> f x \<le> f (hd ys) then x else hd ys)"
  by (cases ys) auto

lemma sort_key_nonempty: "xs \<noteq> [] \<Longrightarrow> sort_key f xs \<noteq> []"
  by (metis length_0_conv length_sort)

lemma sort_key_hd_first_minimum:
  fixes f :: "'a \<Rightarrow> nat"
  assumes "xs \<noteq> []"
  shows "\<exists>i<length xs. hd (sort_key f xs) = xs ! i \<and>
           (\<forall>x\<in>set xs. f (xs ! i) \<le> f x) \<and> (\<forall>j<i. f (xs ! i) < f (xs ! j))"
  using assms
proof (induction xs)
  case Nil
  then show ?case by simp
next
  case (Cons x xs)
  show ?case
  proof (cases "xs = []")
    case True
    then show ?thesis by simp
  next
    case False
    from Cons.IH [OF False] obtain i where i: "i < length xs"
      and h: "hd (sort_key f xs) = xs ! i"
      and least: "\<forall>y\<in>set xs. f (xs ! i) \<le> f y"
      and first: "\<forall>j<i. f (xs ! i) < f (xs ! j)"
      by blast
    have srt: "sort_key f (x # xs) = insort_key f x (sort_key f xs)"
      by simp
    have ne: "sort_key f xs \<noteq> []"
      using False by (rule sort_key_nonempty)
    show ?thesis
    proof (cases "f x \<le> f (xs ! i)")
      case True
      then have "hd (sort_key f (x # xs)) = x"
        unfolding srt insort_key_hd using h by simp
      moreover have "\<forall>y\<in>set (x # xs). f x \<le> f y"
        using True least by auto
      ultimately show ?thesis
        by (intro exI [of _ 0]) simp
    next
      case False
      then have "hd (sort_key f (x # xs)) = xs ! i"
        unfolding srt insort_key_hd using h ne by simp
      moreover have "\<forall>y\<in>set (x # xs). f (xs ! i) \<le> f y"
        using False least by auto
      moreover have "\<forall>j<Suc i. f (xs ! i) < f ((x # xs) ! j)"
        using False first by (auto simp: nth_Cons split: nat.splits)
      ultimately show ?thesis
        using i by (intro exI [of _ "Suc i"]) simp
    qed
  qed
qed

lemma evaluate_chunks_results_grow:
  "evaluate_chunks svc ct pr chunks best results w = (Inr (best', results'), w') \<Longrightarrow>
   \<exists>new. results' = results @ new"
proof (induction chunks arbitrary: best results w)
  case Nil
  then show ?case by simp
next
  case (Cons chunk rest)
  obtain r w1 where s: "evaluate_single_chunk svc w ct pr chunk = (r, w1)"
    by (cases "evaluate_single_chunk svc w ct pr chunk")
  show ?case
  proof (cases r)
    case (Inl e)
    with Cons.prems s Cons.IH [of best results w1] show ?thesis
      by (cases e) auto
  next
    case (Inr result)
    with Cons.prems s
      Cons.IH [of best "results @ [result]" w1]
      Cons.IH [of "Some result" "results @ [result]" w1]
    show ?thesis
      by (auto simp: Let_def split: if_splits)
  qed
qed

lemma evaluate_chunks_no_support:
  "evaluate_chunks svc ct pr chunks None results w = (Inr (best', results'), w') \<Longrightarrow>
   list_all (\<lambda>r. \<not> supports_proposition r) results' \<Longrightarrow> best' = None"
proof (induction chunks arbitrary: results w)
  case Nil
  then show ?case by simp
next
  case (Cons chunk rest)
  obtain r w1 where s: "evaluate_single_chunk svc w ct pr chunk = (r, w1)"
    by (cases "evaluate_single_chunk svc w ct pr chunk")
  show ?case
  proof (cases r)
    case (Inl e)
    with Cons.prems s Cons.IH [of results w1] show ?thesis
      by (cases e) auto
  next
    case (Inr result)
    show ?thesis
    proof (cases "supports_proposition result")
      case False
      with Inr Cons.prems s Cons.IH [of "results @ [result]" w1] show ?thesis
        by (auto simp: Let_def)
    next
      case True
      have "\<exists>new. results' = (results @ [result]) @ new"
      proof (cases "confidence result = ''high''")
        case h: True
        with True Inr Cons.prems(1) s show ?thesis by (auto simp: Let_def)
      next
        case h: False
        with True Inr Cons.prems(1) s
        have "evaluate_chunks svc ct pr rest (Some result) (results @ [result]) w1 =
              (Inr (best', results'), w')"
          by (auto simp: Let_def)
        then show ?thesis by (rule evaluate_chunks_results_grow)
      qed
      with Cons.prems(2) True show ?thesis by auto
    qed
  qed
qed

lemma long_opinion_chunks:
  "chunk_text_default long_opinion =
     Some [replicate 20000 CHR ''x'', replicate 20000 CHR ''x'', replicate 1000 CHR ''x'']"
proof -
  have "chunk_text long_opinion 20000 500 =
        Some (windows long_opinion (nat 20000) (nat 20000 - nat 500) 0)"
    by (rule chunk_text_valid_windows) (simp_all add: long_opinion_def)
  moreover have "windows long_opinion 20000 19500 0 =
      [replicate 20000 CHR ''x'', replicate 20000 CHR ''x'', replicate 1000 CHR ''x'']"
    by (simp add: windows.simps [of _ _ _ 0] windows.simps [of _ _ _ 19500]
          windows.simps [of _ _ _ 39000] windows.simps [of _ _ _ 58500] long_opinion_def)
  ultimately show ?thesis
    by (simp add: chunk_text_default_def)
qed

text \<open>
  Claim C7. Suppose the first request fails with a \<open>BadRequestError\<close> whose message
  names a token, length or context limit, the loop over the chunks ends with the results
  \<open>results\<close>, at least one result was obtained, and none of them reports support. Then
  \<open>evaluate_proposition_support\<close> returns one of these results, which is negative and
  whose confidence has the lowest rank among all of them (the first such in chunk order),
  with its reasoning prefixed by \<open>[Evaluated in n chunks]\<close>, where \<open>n\<close> is the number of
  chunks. The rank of \<open>high\<close> is below that of \<open>medium\<close>, which is below that of
  \<open>low\<close>.
\<close>

theorem chunked_fallback_most_confident_negative:
  assumes "evaluate_single_chunk svc w citation_text proposition opinion =
             (Inl (BadRequestError msg), w1)"
    and "is_context_length_error msg"
    and "chunk_text_default opinion = Some chunks"
    and "evaluate_chunks svc citation_text proposition chunks None [] w1 =
           (Inr (best, results), w2)"
    and "list_all (\<lambda>r. \<not> supports_proposition r) results"
    and "results \<noteq> []"
  shows "\<exists>i<length results.
           evaluate_proposition_support svc w citation_text proposition opinion =
             Some (Inr ((results ! i)\<lparr>reasoning :=
                     ''[Evaluated in '' @ str_nat (length chunks) @ '' chunks] '' @
                     reasoning (results ! i)\<rparr>), w2) \<and>
           \<not> supports_proposition (results ! i) \<and>
           (\<forall>r\<in>set results.
              confidence_order (confidence (results ! i)) \<le> confidence_order (confidence r)) \<and>
           (\<forall>j<i.
              confidence_order (confidence (results ! i)) <
              confidence_order (confidence (results ! j))) \<and>
           confidence_order ''high'' < confidence_order ''medium'' \<and>
           confidence_order ''medium'' < confidence_order ''low''"
proof -
  let ?f = "\<lambda>r. confidence_order (confidence r)"
  from sort_key_hd_first_minimum [OF assms(6), of ?f]
  obtain i where i: "i < length results"
    and h: "hd (sort_key ?f results) = results ! i"
    and least: "\<forall>r\<in>set results. ?f (results ! i) \<le> ?f r"
    and first: "\<forall>j<i. ?f (results ! i) < ?f (results ! j)"
    by blast
  have best: "best = None"
    using assms(4,5) by (rule evaluate_chunks_no_support)
  obtain rs where srt: "sort_key ?f results = results ! i # rs"
    using h sort_key_nonempty [OF assms(6), of ?f] by (cases "sort_key ?f results") auto
  have "chunked_result chunks best results =
          (results ! i)\<lparr>reasoning := ''[Evaluated in '' @ str_nat (length chunks) @
             '' chunks] '' @ reasoning (results ! i)\<rparr>"
    by (simp add: chunked_result_def best srt)
  then have "evaluate_proposition_support svc w citation_text proposition opinion =
      Some (Inr ((results ! i)\<lparr>reasoning := ''[Evaluated in '' @ str_nat (length chunks) @
             '' chunks] '' @ reasoning (results ! i)\<rparr>), w2)"
    using assms(1-4) by (simp add: evaluate_proposition_support_def)
  moreover have "\<not> supports_proposition (results ! i)"
    using assms(5) i by (simp add: list_all_length)
  moreover have "confidence_order ''high'' < confidence_order ''medium''"
    and "confidence_order ''medium'' < confidence_order ''low''"
    by (simp_all add: confidence_order_def)
  ultimately show ?thesis
    using i least first by blast
qed

text \<open>
  Three chunks with negative verdicts of confidence low, high and medium: the verdict of
  high confidence is returned.
\<close>

theorem chunked_fallback_most_confident_negative_witness:
  "evaluate_proposition_support chunking_services empty_world
     ''Smith v. Jones, 123 F.3d 456'' ''Defendants owe a duty of care.'' long_opinion =
   Some (Inr \<lparr>supports_proposition = False, confidence = ''high'',
               reasoning = ''[Evaluated in 3 chunks] Not addressed.'',
               relevant_excerpt = None\<rparr>,
         \<lparr>cache = Map.empty, requests = 0, llm_calls = 4\<rparr>)"
proof -
  let ?ct = "''Smith v. Jones, 123 F.3d 456''" and ?pr = "''Defendants owe a duty of care.''"
  let ?neg = "\<lambda>c. \<lparr>supports_proposition = False, confidence = c,
                     reasoning = ''Not addressed.'', relevant_excerpt = None\<rparr>"
  let ?results = "[?neg ''low'', ?neg ''high'', ?neg ''medium'']"
  let ?chunks = "[replicate 20000 CHR ''x'', replicate 20000 CHR ''x'',
                  replicate 1000 CHR ''x'']"
  let ?w1 = "\<lparr>cache = Map.empty, requests = 0, llm_calls = 1\<rparr>"
  let ?w2 = "\<lparr>cache = Map.empty, requests = 0, llm_calls = 4\<rparr>"
  have primary: "evaluate_single_chunk chunking_services empty_world ?ct ?pr long_opinion =
      (Inl (BadRequestError ''Maximum context length exceeded''), ?w1)"
    by (simp add: evaluate_single_chunk_def chunking_services_def empty_world_def)
  have too_long: "is_context_length_error ''Maximum context length exceeded''"
    by code_simp
  have loop: "evaluate_chunks chunking_services ?ct ?pr ?chunks None [] ?w1 =
      (Inr (None, ?results), ?w2)"
    by (simp add: evaluate_single_chunk_def chunking_services_def)
  have three: "str_nat (length ?chunks) = ''3''"
    by (simp add: str_nat.simps digit_char_def)
  from chunked_fallback_most_confident_negative
    [OF primary too_long long_opinion_chunks loop]
  obtain i where i: "i < length ?results"
    and r: "evaluate_proposition_support chunking_services empty_world ?ct ?pr long_opinion =
      Some (Inr ((?results ! i)\<lparr>reasoning := ''[Evaluated in '' @ str_nat (length ?chunks) @
             '' chunks] '' @ reasoning (?results ! i)\<rparr>), ?w2)"
    and least: "\<forall>r\<in>set ?results.
        confidence_order (confidence (?results ! i)) \<le> confidence_order (confidence r)"
    by auto
  from i least have "i = 1"
    by (auto simp: less_Suc_eq confidence_order_def)
  with r three show ?thesis
    by simp
qed

section \<open>Properties of the orchestrator: the counters\<close>

lemma assess_support_step:
  assumes "assess_support svc w ev ce cit opinion = Some (Inr (ev', ce'), w')"
  shows "ev_raw_text ce' = ev_raw_text ce \<and> ev_citation_type ce' = ev_citation_type ce \<and>
         ev_proposition ce' = ev_proposition ce \<and> ev_is_valid ce' = ev_is_valid ce \<and>
         (ev_supports_proposition ce' = Some True \<and>
            ev' = ev\<lparr>supported_propositions := supported_propositions ev + 1\<rparr> \<or>
          ev_supports_proposition ce' = Some False \<and>
            ev' = ev\<lparr>unsupported_propositions := unsupported_propositions ev + 1\<rparr>)"
  using assms
  by (auto simp: assess_support_def Let_def split: option.splits prod.splits sum.splits if_splits)

lemma assess_citation_step:
  assumes "assess_citation svc w ev cit = Some (Inr (ev', ce), w')"
  shows "citations ev' = citations ev \<and> total_citations ev' = total_citations ev \<and>
     ev_raw_text ce = ex_raw_text cit \<and> ev_citation_type ce = ex_citation_type cit \<and>
     ev_proposition ce = ex_proposition cit \<and> entry_consistent ce \<and>
     (\<exists>c s v i p.
        case_citations ev' = case_citations ev + c \<and>
        statute_citations ev' = statute_citations ev + s \<and>
        valid_citations ev' = valid_citations ev + v \<and>
        invalid_citations ev' = invalid_citations ev + i \<and>
        supported_propositions ev' + unsupported_propositions ev' =
          supported_propositions ev + unsupported_propositions ev + p \<and>
        c + s = 1 \<and> 0 \<le> s \<and> v + i = c \<and> 0 \<le> i \<and> 0 \<le> p \<and> p \<le> v \<and>
        p = (if ev_supports_proposition ce = None then 0 else 1))"
proof (cases "ex_citation_type cit = ''statute''")
  case True
  with assms have "ev' = ev\<lparr>statute_citations := statute_citations ev + 1\<rparr>"
    and "ce = (CitationEvaluation (ex_raw_text cit) (ex_citation_type cit)
                (ex_proposition cit))\<lparr>ev_is_valid := None\<rparr>"
    by (simp_all add: assess_citation_def Let_def)
  with True show ?thesis
    by (simp add: CitationEvaluation_def entry_consistent_def)
next
  case False
  let ?ev1 = "ev\<lparr>case_citations := case_citations ev + 1\<rparr>"
  let ?ce0 = "CitationEvaluation (ex_raw_text cit) (ex_citation_type cit) (ex_proposition cit)"
  obtain e validated w1
    where v: "validate_citation svc w (Citation (ex_raw_text cit)) = (e, validated, w1)"
    by (cases "validate_citation svc w (Citation (ex_raw_text cit))")
  with assms False have e: "e = None"
    by (cases e) (simp_all add: assess_citation_def Let_def)
  from v e validate_citation_sets_validity have known: "is_valid validated \<noteq> None"
    by blast
  let ?ce1 = "?ce0\<lparr>ev_is_valid := is_valid validated,
                     ev_courtlistener_id := courtlistener_id validated,
                     ev_case_name := case_name validated,
                     ev_validation_error := validation_error validated\<rparr>"
  show ?thesis
  proof (cases "is_valid validated = Some True")
    case invalid: False
    with assms False v e
    have "ev' = ?ev1\<lparr>invalid_citations := invalid_citations ?ev1 + 1\<rparr>" and "ce = ?ce1"
      by (simp_all add: assess_citation_def Let_def)
    with False known show ?thesis
      by (simp add: CitationEvaluation_def entry_consistent_def)
  next
    case valid: True
    let ?ev2 = "?ev1\<lparr>valid_citations := valid_citations ?ev1 + 1\<rparr>"
    show ?thesis
    proof (cases "truthy (opinion_text validated)")
      case no_text: False
      with assms False v e valid have "ev' = ?ev2" and "ce = ?ce1"
        by (auto simp: assess_citation_def Let_def truthy_def split: option.splits if_splits)
      with False valid show ?thesis
        by (simp add: CitationEvaluation_def entry_consistent_def)
    next
      case True
      then obtain opinion where "opinion_text validated = Some opinion" "opinion \<noteq> []"
        by (auto simp: truthy_def split: option.splits)
      with assms False v e valid
      have "assess_support svc w1 ?ev2 ?ce1 cit opinion = Some (Inr (ev', ce), w')"
        by (simp add: assess_citation_def Let_def)
      from assess_support_step [OF this]
      have ce: "ev_raw_text ce = ev_raw_text ?ce1" "ev_citation_type ce = ev_citation_type ?ce1"
          "ev_proposition ce = ev_proposition ?ce1" "ev_is_valid ce = ev_is_valid ?ce1"
        and ev': "ev_supports_proposition ce = Some True \<and>
            ev' = ?ev2\<lparr>supported_propositions := supported_propositions ?ev2 + 1\<rparr> \<or>
          ev_supports_proposition ce = Some False \<and>
            ev' = ?ev2\<lparr>unsupported_propositions := unsupported_propositions ?ev2 + 1\<rparr>"
        by blast+
      from ev' show ?thesis
      proof (elim disjE conjE)
        assume "ev_supports_proposition ce = Some True"
          and "ev' = ?ev2\<lparr>supported_propositions := supported_propositions ?ev2 + 1\<rparr>"
        with ce False valid show ?thesis
          by (simp add: CitationEvaluation_def entry_consistent_def)
      next
        assume "ev_supports_proposition ce = Some False"
          and "ev' = ?ev2\<lparr>unsupported_propositions := unsupported_propositions ?ev2 + 1\<rparr>"
        with ce False valid show ?thesis
          by (simp add: CitationEvaluation_def entry_consistent_def)
      qed
    qed
  qed
qed

lemma unique_key_fresh:
  assumes "unique_key d raw key counter = Some k"
  shows "k \<notin> set (map fst d)"
  by (rule unique_key.raw_induct
        [where P = "\<lambda>d raw key counter k. k \<notin> set (map fst d)", OF _ assms])
     (auto split: if_splits)

lemma dict_set_fresh: "key \<notin> set (map fst d) \<Longrightarrow> dict_set d key v = d @ [(key, v)]"
  by (induction d key v rule: dict_set.induct) auto

lemma store_citation_appends:
  assumes "store_citation ev cit ce = Some ev'"
  shows "\<exists>key. key \<notin> set (map fst (citations ev)) \<and>
               unique_key (citations ev) (ex_raw_text cit) (ex_raw_text cit) 1 = Some key \<and>
               ev' = ev\<lparr>citations := citations ev @ [(key, ce)]\<rparr>"
proof -
  from assms obtain key
    where key: "unique_key (citations ev) (ex_raw_text cit) (ex_raw_text cit) 1 = Some key"
      and ev': "ev' = ev\<lparr>citations := dict_set (citations ev) key ce\<rparr>"
    by (auto simp: store_citation_def split: option.splits)
  from key have fresh: "key \<notin> set (map fst (citations ev))"
    by (rule unique_key_fresh)
  with key ev' show ?thesis
    by (simp add: dict_set_fresh)
qed

lemma loop_body_consistent:
  assumes a: "assess_citation svc w ev cit = Some (Inr (ev1, ce), w1)"
    and s: "store_citation ev1 cit ce = Some ev2"
    and c: "counts_consistent ev"
  shows "counts_consistent ev2 \<and> total_citations ev2 = total_citations ev \<and>
         (\<exists>key. citations ev2 = citations ev @ [(key, ce)] \<and>
                key \<notin> set (map fst (citations ev)) \<and>
                unique_key (citations ev) (ex_raw_text cit) (ex_raw_text cit) 1 = Some key) \<and>
         ev_raw_text ce = ex_raw_text cit \<and> ev_proposition ce = ex_proposition cit \<and>
         ev_citation_type ce = ex_citation_type cit"
proof -
  note st = assess_citation_step [OF a]
  from st have same: "citations ev1 = citations ev" "total_citations ev1 = total_citations ev"
    and ce: "entry_consistent ce" "ev_raw_text ce = ex_raw_text cit"
      "ev_proposition ce = ex_proposition cit" "ev_citation_type ce = ex_citation_type cit"
    by blast+
  from st obtain cc ss v i p where d:
    "case_citations ev1 = case_citations ev + cc"
    "statute_citations ev1 = statute_citations ev + ss"
    "valid_citations ev1 = valid_citations ev + v"
    "invalid_citations ev1 = invalid_citations ev + i"
    "supported_propositions ev1 + unsupported_propositions ev1 =
       supported_propositions ev + unsupported_propositions ev + p"
    "cc + ss = 1" "0 \<le> ss" "v + i = cc" "0 \<le> i" "0 \<le> p" "p \<le> v"
    "p = (if ev_supports_proposition ce = None then 0 else 1)"
    by blast
  from store_citation_appends [OF s] obtain key
    where key: "key \<notin> set (map fst (citations ev1))"
      "unique_key (citations ev1) (ex_raw_text cit) (ex_raw_text cit) 1 = Some key"
      and ev2: "ev2 = ev1\<lparr>citations := citations ev1 @ [(key, ce)]\<rparr>"
    by blast
  have "counts_consistent ev2"
    using c d ce(1) unfolding counts_consistent_def ev2 same
    by (simp add: has_verdict_def)
  with key ev2 same ce show ?thesis
    by simp
qed

lemma evaluate_citations_consistent:
  assumes "evaluate_citations svc w ev cits = Some (Inr ev', w')" and "counts_consistent ev"
  shows "counts_consistent ev' \<and> total_citations ev' = total_citations ev \<and>
         length (citations ev') = length (citations ev) + length cits"
  using assms
proof (induction cits arbitrary: ev w)
  case Nil
  then show ?case by simp
next
  case (Cons cit rest)
  from Cons.prems(1) obtain ev1 ce w1 ev2
    where a: "assess_citation svc w ev cit = Some (Inr (ev1, ce), w1)"
      and s: "store_citation ev1 cit ce = Some ev2"
      and r: "evaluate_citations svc w1 ev2 rest = Some (Inr ev', w')"
    by (auto split: option.splits prod.splits sum.splits)
  from loop_body_consistent [OF a s Cons.prems(2)]
  have c2: "counts_consistent ev2" and t2: "total_citations ev2 = total_citations ev"
    and l2: "length (citations ev2) = length (citations ev) + 1"
    by auto
  from Cons.IH [OF r c2] t2 l2 show ?case by simp
qed

lemma evaluate_complaint_consistent:
  assumes "evaluate_complaint svc w name md text = Some (Inr ev, w')"
  shows "counts_consistent ev \<and> total_citations ev = int (length (citations ev))"
proof -
  let ?ev0 = "\<lparr>complaint_file = name, scenario_id = md_scenario_id md,
            category = md_category md, model = md_model md, total_citations = 0,
            case_citations = 0, statute_citations = 0, valid_citations = 0,
            invalid_citations = 0, supported_propositions = 0,
            unsupported_propositions = 0, citations = []\<rparr>"
  from assms obtain cits w1
    where "evaluate_citations svc w1 (?ev0\<lparr>total_citations := int (length cits)\<rparr>) cits =
           Some (Inr ev, w')"
    by (auto simp: evaluate_complaint_def Let_def split: prod.splits sum.splits)
  moreover have "counts_consistent (?ev0\<lparr>total_citations := int (length cits)\<rparr>)"
    by (simp add: counts_consistent_def)
  ultimately show ?thesis
    using evaluate_citations_consistent by fastforce
qed

lemma example_run:
  "\<exists>ev w'. evaluate_complaint example_services empty_world ''complaint.txt''
              example_metadata ''The complaint.'' = Some (Inr ev, w') \<and>
     counts ev = (4, 3, 1, 2, 1, 2, 0) \<and>
     map fst (citations ev) =
       [''Smith v. Jones, 123 F.3d 456'', ''G.L. c. 93A'', ''Doe v. Roe, 1 U.S. 1'',
        ''Smith v. Jones, 123 F.3d 456 (1)'']"
proof -
  have "map_option (\<lambda>r. map_sum id (\<lambda>ev. (counts ev, map fst (citations ev))) (fst r))
     (evaluate_complaint example_services empty_world ''complaint.txt'' example_metadata
        ''The complaint.'') =
   Some (Inr ((4, 3, 1, 2, 1, 2, 0),
     [''Smith v. Jones, 123 F.3d 456'', ''G.L. c. 93A'', ''Doe v. Roe, 1 U.S. 1'',
      ''Smith v. Jones, 123 F.3d 456 (1)'']))"
    by code_simp
  then obtain r where r: "evaluate_complaint example_services empty_world ''complaint.txt''
              example_metadata ''The complaint.'' = Some r"
    and m: "map_sum id (\<lambda>ev. (counts ev, map fst (citations ev))) (fst r) =
      Inr ((4, 3, 1, 2, 1, 2, 0),
     [''Smith v. Jones, 123 F.3d 456'', ''G.L. c. 93A'', ''Doe v. Roe, 1 U.S. 1'',
      ''Smith v. Jones, 123 F.3d 456 (1)''])"
    by auto
  from m obtain ev where "fst r = Inr ev" and "counts ev = (4, 3, 1, 2, 1, 2, 0)"
    and "map fst (citations ev) =
       [''Smith v. Jones, 123 F.3d 456'', ''G.L. c. 93A'', ''Doe v. Roe, 1 U.S. 1'',
        ''Smith v. Jones, 123 F.3d 456 (1)'']"
    by (cases "fst r") auto
  with r show ?thesis
    by (cases r) auto
qed

text \<open>
  Claim C8. For every evaluation that \<open>evaluate_complaint\<close> returns,
  \<open>valid_citations + invalid_citations \<le> case_citations \<le> total_citations\<close> and
  \<open>supported_propositions + unsupported_propositions \<le> valid_citations\<close>. The support
  counters count the entries that carry a support verdict, and such an entry is a valid
  citation that is no statute.
\<close>

theorem evaluate_complaint_count_bounds:
  assumes "evaluate_complaint svc w name md text = Some (Inr ev, w')"
  shows "valid_citations ev + invalid_citations ev \<le> case_citations ev \<and>
         case_citations ev \<le> total_citations ev \<and>
         supported_propositions ev + unsupported_propositions ev \<le> valid_citations ev \<and>
         supported_propositions ev + unsupported_propositions ev =
           int (length (filter (\<lambda>entry. ev_supports_proposition (snd entry) \<noteq> None)
                          (citations ev))) \<and>
         list_all (\<lambda>entry. ev_supports_proposition (snd entry) = None \<or>
                     ev_is_valid (snd entry) = Some True \<and>
                     ev_citation_type (snd entry) \<noteq> ''statute'') (citations ev)"
proof -
  from evaluate_complaint_consistent [OF assms]
  have c: "counts_consistent ev" and t: "total_citations ev = int (length (citations ev))"
    by blast+
  from c have "list_all (\<lambda>entry. entry_consistent (snd entry)) (citations ev)"
    by (simp add: counts_consistent_def)
  then have "list_all (\<lambda>entry. ev_supports_proposition (snd entry) = None \<or>
                     ev_is_valid (snd entry) = Some True \<and>
                     ev_citation_type (snd entry) \<noteq> ''statute'') (citations ev)"
    by (auto simp: list_all_iff entry_consistent_def)
  moreover have "filter (\<lambda>entry. ev_supports_proposition (snd entry) \<noteq> None) (citations ev) =
                 filter has_verdict (citations ev)"
    by (simp add: has_verdict_def [abs_def])
  ultimately show ?thesis
    using c t unfolding counts_consistent_def by simp
qed

text \<open>
  The example complaint: four citations, three cases, one statute, two valid, one
  invalid, two supported.
\<close>

theorem evaluate_complaint_count_bounds_witness:
  "(case evaluate_complaint example_services empty_world ''complaint.txt''
           example_metadata ''The complaint.'' of
      Some (Inr ev, w') \<Rightarrow>
        counts ev = (4, 3, 1, 2, 1, 2, 0) \<and>
        valid_citations ev + invalid_citations ev \<le> case_citations ev \<and>
        case_citations ev \<le> total_citations ev \<and>
        supported_propositions ev + unsupported_propositions ev \<le> valid_citations ev
    | _ \<Rightarrow> False)"
proof -
  from example_run obtain ev w'
    where r: "evaluate_complaint example_services empty_world ''complaint.txt''
              example_metadata ''The complaint.'' = Some (Inr ev, w')"
      and c: "counts ev = (4, 3, 1, 2, 1, 2, 0)"
    by blast
  from evaluate_complaint_count_bounds [OF r] c show ?thesis
    by (simp add: r)
qed

text \<open>
  Claim C10. For every evaluation that \<open>evaluate_complaint\<close> returns,
  \<open>valid_citations + invalid_citations = case_citations\<close> and
  \<open>case_citations + statute_citations = total_citations\<close>, which is the number of
  entries; and every entry that is no statute has a validity.
\<close>

theorem evaluate_complaint_count_equalities:
  assumes "evaluate_complaint svc w name md text = Some (Inr ev, w')"
  shows "valid_citations ev + invalid_citations ev = case_citations ev \<and>
         case_citations ev + statute_citations ev = total_citations ev \<and>
         total_citations ev = int (length (citations ev)) \<and>
         list_all (\<lambda>entry. ev_citation_type (snd entry) = ''statute'' \<or>
                     ev_is_valid (snd entry) \<noteq> None) (citations ev)"
proof -
  from evaluate_complaint_consistent [OF assms]
  have c: "counts_consistent ev" and t: "total_citations ev = int (length (citations ev))"
    by blast+
  from c have "list_all (\<lambda>entry. entry_consistent (snd entry)) (citations ev)"
    by (simp add: counts_consistent_def)
  then have "list_all (\<lambda>entry. ev_citation_type (snd entry) = ''statute'' \<or>
                     ev_is_valid (snd entry) \<noteq> None) (citations ev)"
    by (auto simp: list_all_iff entry_consistent_def)
  then show ?thesis
    using c t unfolding counts_consistent_def by simp
qed

text \<open>The equalities on the example complaint.\<close>

theorem evaluate_complaint_count_equalities_witness:
  "(case evaluate_complaint example_services empty_world ''complaint.txt''
           example_metadata ''The complaint.'' of
      Some (Inr ev, w') \<Rightarrow>
        counts ev = (4, 3, 1, 2, 1, 2, 0) \<and>
        valid_citations ev + invalid_citations ev = case_citations ev \<and>
        case_citations ev + statute_citations ev = total_citations ev
    | _ \<Rightarrow> False)"
proof -
  from example_run obtain ev w'
    where r: "evaluate_complaint example_services empty_world ''complaint.txt''
              example_metadata ''The complaint.'' = Some (Inr ev, w')"
      and c: "counts ev = (4, 3, 1, 2, 1, 2, 0)"
    by blast
  from evaluate_complaint_count_equalities [OF r] c show ?thesis
    by (simp add: r)
qed

section \<open>Properties of the orchestrator: the keys of the citations mapping\<close>

lemma digit_char_inj: "a < 10 \<Longrightarrow> b < 10 \<Longrightarrow> digit_char a = digit_char b \<Longrightarrow> a = b"
proof -
  have "distinct ''0123456789''" by simp
  moreover assume "a < 10" "b < 10" "digit_char a = digit_char b"
  ultimately show ?thesis
    unfolding digit_char_def by (simp add: nth_eq_iff_index_eq)
qed

lemma digit_char_digit: "d < 10 \<Longrightarrow> digit_char d \<in> set ''0123456789''"
  unfolding digit_char_def by (rule nth_mem) simp

lemma str_nat_digits: "set (str_nat n) \<subseteq> set ''0123456789''"
proof (induction n rule: str_nat.induct)
  case (1 n)
  show ?case
  proof (cases "n < 10")
    case True
    then show ?thesis
      using digit_char_digit [of n] by (subst str_nat.simps) simp
  next
    case False
    with "1.IH" digit_char_digit [of "n mod 10"] show ?thesis
      by (subst str_nat.simps) simp
  qed
qed

lemma str_nat_nonempty: "str_nat n \<noteq> []"
  by (subst str_nat.simps) simp

lemma str_nat_inj: "str_nat n = str_nat m \<Longrightarrow> n = m"
proof (induction n arbitrary: m rule: str_nat.induct)
  case (1 n)
  show ?case
  proof (cases "n < 10")
    case n: True
    show ?thesis
    proof (cases "m < 10")
      case True
      with n "1.prems" show ?thesis
        by (simp add: str_nat.simps [of n] str_nat.simps [of m] digit_char_inj)
    next
      case False
      with n "1.prems" str_nat_nonempty [of "m div 10"] show ?thesis
        by (simp add: str_nat.simps [of n] str_nat.simps [of m])
    qed
  next
    case n: False
    show ?thesis
    proof (cases "m < 10")
      case True
      with n "1.prems" str_nat_nonempty [of "n div 10"] show ?thesis
        by (simp add: str_nat.simps [of n] str_nat.simps [of m])
    next
      case False
      with n "1.prems" have "str_nat (n div 10) = str_nat (m div 10)"
        and "digit_char (n mod 10) = digit_char (m mod 10)"
        by (simp_all add: str_nat.simps [of n] str_nat.simps [of m])
      with n "1.IH" [of "m div 10"] have "n div 10 = m div 10" and "n mod 10 = m mod 10"
        by (simp_all add: digit_char_inj)
      then show ?thesis
        by (metis div_mult_mod_eq)
    qed
  qed
qed

lemma first_occurrence_split:
  "p \<notin> set xs \<Longrightarrow> p \<notin> set ys \<Longrightarrow> xs @ p # a = ys @ p # b \<Longrightarrow> xs = ys \<and> a = b"
proof (induction xs arbitrary: ys)
  case Nil
  then show ?case by (cases ys) auto
next
  case (Cons x xs)
  then show ?case by (cases ys) auto
qed

lemma last_occurrence_split:
  assumes "p \<notin> set d" and "p \<notin> set e" and "a @ p # d = b @ p # e"
  shows "a = b \<and> d = e"
proof -
  from assms(3) have "rev (a @ p # d) = rev (b @ p # e)"
    by simp
  then have "rev d @ p # rev a = rev e @ p # rev b"
    by simp
  with assms(1,2) have "rev d = rev e \<and> rev a = rev b"
    by (intro first_occurrence_split) simp_all
  then show ?thesis by simp
qed

lemma numbered_key_inj:
  assumes "numbered_key x c = numbered_key y k"
  shows "x = y \<and> c = k"
proof -
  have paren: "CHR ''('' \<notin> set (str_nat n)" for n
    using str_nat_digits [of n] by auto
  from assms have "(x @ '' '') @ CHR ''('' # str_nat c = (y @ '' '') @ CHR ''('' # str_nat k"
    by (simp add: numbered_key_def)
  from last_occurrence_split [OF paren paren this] show ?thesis
    by (simp add: str_nat_inj)
qed

lemma numbered_key_last: "last (numbered_key y c) = CHR '')''"
  by (simp add: numbered_key_def)

lemma numbered_key_ends_with_paren: "x \<noteq> [] \<Longrightarrow> last x \<noteq> CHR '')'' \<Longrightarrow> x \<noteq> numbered_key y c"
  using numbered_key_last [of y c] by auto

lemma unique_key_numbered:
  assumes "\<forall>c. start \<le> c \<and> c < n \<longrightarrow> numbered_key raw c \<in> set (map fst d)"
    and "numbered_key raw n \<notin> set (map fst d)"
    and "start \<le> n" and "key \<in> set (map fst d)"
  shows "unique_key d raw key start = Some (numbered_key raw n)"
  using assms
proof (induction "n - start" arbitrary: start key)
  case 0
  then have "start = n" by simp
  with "0.prems" show ?case
    by (subst unique_key.simps, subst unique_key.simps) simp
next
  case (Suc m)
  then have lt: "start < n" by simp
  with Suc.prems(1) have nk: "numbered_key raw start \<in> set (map fst d)" by simp
  have "unique_key d raw (numbered_key raw start) (Suc start) = Some (numbered_key raw n)"
    using Suc.hyps(2) Suc.prems(1,2) lt nk
    by (intro Suc.hyps(1)) auto
  with Suc.prems(4) show ?case
    by (subst unique_key.simps) simp
qed

lemma unique_key_free:
  "key \<notin> set (map fst d) \<Longrightarrow> unique_key d raw key start = Some key"
  by (subst unique_key.simps) simp

lemma assigned_snoc:
  "{spec_key y k | y k. k < count_list (seen @ [x]) y} =
   insert (spec_key x (count_list seen x)) {spec_key y k | y k. k < count_list seen y}"
  by (auto simp: less_Suc_eq)

lemma count_list_pos_mem: "0 < count_list xs y \<Longrightarrow> y \<in> set xs"
  by (metis count_notin less_numeral_extra(3))

lemma unique_key_spec:
  assumes keys: "set (map fst d) = {spec_key y k | y k. k < count_list seen y}"
    and clash: "\<forall>a\<in>insert x (set seen). \<forall>b\<in>insert x (set seen). \<forall>c\<ge>1.
                  a \<noteq> numbered_key b c"
  shows "unique_key d x x 1 = Some (spec_key x (count_list seen x))"
proof -
  let ?n = "count_list seen x"
  have own: "x \<in> set (map fst d) \<longleftrightarrow> 0 < ?n"
  proof
    assume "x \<in> set (map fst d)"
    with keys obtain y k where x: "x = spec_key y k" and k: "k < count_list seen y"
      by auto
    show "0 < ?n"
    proof (cases "k = 0")
      case True
      with x k show ?thesis by (simp add: spec_key_def)
    next
      case False
      from k have "y \<in> set seen" by (intro count_list_pos_mem) simp
      with clash have "1 \<le> k \<longrightarrow> x \<noteq> numbered_key y k" by blast
      with False x show ?thesis
        by (simp add: spec_key_def)
    qed
  next
    assume "0 < ?n"
    then have "spec_key x 0 \<in> {spec_key y k | y k. k < count_list seen y}"
      by blast
    with keys show "x \<in> set (map fst d)"
      by (simp add: spec_key_def)
  qed
  have numbered: "numbered_key x c \<in> set (map fst d) \<longleftrightarrow> c < ?n" if c: "1 \<le> c" for c
  proof
    assume "numbered_key x c \<in> set (map fst d)"
    with keys obtain y k where e: "numbered_key x c = spec_key y k"
      and k: "k < count_list seen y"
      by auto
    from k have y: "y \<in> set seen" by (intro count_list_pos_mem) simp
    show "c < ?n"
    proof (cases "k = 0")
      case True
      with e have "y = numbered_key x c" by (simp add: spec_key_def)
      moreover from clash y have "1 \<le> c \<longrightarrow> y \<noteq> numbered_key x c" by blast
      ultimately show ?thesis using c by simp
    next
      case False
      with e have "numbered_key x c = numbered_key y k" by (simp add: spec_key_def)
      from numbered_key_inj [OF this] k show ?thesis by simp
    qed
  next
    assume "c < ?n"
    then have "spec_key x c \<in> {spec_key y k | y k. k < count_list seen y}"
      by blast
    with keys c show "numbered_key x c \<in> set (map fst d)"
      by (simp add: spec_key_def)
  qed
  show ?thesis
  proof (cases "?n = 0")
    case True
    with own have "x \<notin> set (map fst d)" by simp
    with True show ?thesis
      by (simp add: unique_key_free spec_key_def)
  next
    case False
    then have "1 \<le> ?n" by simp
    have "unique_key d x x 1 = Some (numbered_key x ?n)"
    proof (rule unique_key_numbered)
      show "\<forall>c. 1 \<le> c \<and> c < ?n \<longrightarrow> numbered_key x c \<in> set (map fst d)"
        using numbered by blast
      show "numbered_key x ?n \<notin> set (map fst d)"
        using numbered [OF \<open>1 \<le> ?n\<close>] by simp
      show "1 \<le> ?n" by fact
      show "x \<in> set (map fst d)"
        using own False by simp
    qed
    with False show ?thesis
      by (simp add: spec_key_def)
  qed
qed

lemma evaluate_citations_unfold:
  assumes "evaluate_citations svc w ev (cit # rest) = Some (Inr ev', w')"
  shows "\<exists>ce key w1 ev2.
           unique_key (citations ev) (ex_raw_text cit) (ex_raw_text cit) 1 = Some key \<and>
           key \<notin> set (map fst (citations ev)) \<and>
           citations ev2 = citations ev @ [(key, ce)] \<and>
           ev_raw_text ce = ex_raw_text cit \<and> ev_proposition ce = ex_proposition cit \<and>
           evaluate_citations svc w1 ev2 rest = Some (Inr ev', w')"
proof -
  from assms obtain ev1 ce w1 ev2
    where a: "assess_citation svc w ev cit = Some (Inr (ev1, ce), w1)"
      and s: "store_citation ev1 cit ce = Some ev2"
      and r: "evaluate_citations svc w1 ev2 rest = Some (Inr ev', w')"
    by (auto split: option.splits prod.splits sum.splits)
  from assess_citation_step [OF a]
  have same: "citations ev1 = citations ev"
    and ce: "ev_raw_text ce = ex_raw_text cit" "ev_proposition ce = ex_proposition cit"
    by blast+
  from store_citation_appends [OF s] same obtain key
    where "key \<notin> set (map fst (citations ev))"
      and "unique_key (citations ev) (ex_raw_text cit) (ex_raw_text cit) 1 = Some key"
      and "citations ev2 = citations ev @ [(key, ce)]"
    by auto
  with ce r show ?thesis by blast
qed

lemma evaluate_citations_entries:
  assumes "evaluate_citations svc w ev cits = Some (Inr ev', w')"
  shows "map (\<lambda>e. (ev_raw_text (snd e), ev_proposition (snd e))) (citations ev') =
           map (\<lambda>e. (ev_raw_text (snd e), ev_proposition (snd e))) (citations ev) @
           map (\<lambda>c. (ex_raw_text c, ex_proposition c)) cits \<and>
         (distinct (map fst (citations ev)) \<longrightarrow> distinct (map fst (citations ev')))"
  using assms
proof (induction cits arbitrary: ev w)
  case Nil
  then show ?case by simp
next
  case (Cons cit rest)
  from evaluate_citations_unfold [OF Cons.prems] obtain ce key w1 ev2
    where fresh: "key \<notin> set (map fst (citations ev))"
      and c2: "citations ev2 = citations ev @ [(key, ce)]"
      and ce: "ev_raw_text ce = ex_raw_text cit" "ev_proposition ce = ex_proposition cit"
      and r: "evaluate_citations svc w1 ev2 rest = Some (Inr ev', w')"
    by blast
  from Cons.IH [OF r] fresh c2 ce show ?case
    by simp
qed

lemma expected_keys_shift:
  "map (\<lambda>j. spec_key ((x # rest) ! j) (count_list (seen @ take j (x # rest)) ((x # rest) ! j)))
     [0..<length (x # rest)] =
   spec_key x (count_list seen x) #
   map (\<lambda>j. spec_key (rest ! j) (count_list ((seen @ [x]) @ take j rest) (rest ! j)))
     [0..<length rest]"
  by (simp add: map_upt_Suc del: upt_Suc)

lemma evaluate_citations_keys:
  assumes "evaluate_citations svc w ev cits = Some (Inr ev', w')"
    and "set (map fst (citations ev)) = {spec_key y k | y k. k < count_list seen y}"
    and "\<forall>a\<in>set (seen @ map ex_raw_text cits). \<forall>b\<in>set (seen @ map ex_raw_text cits).
           \<forall>c\<ge>1. a \<noteq> numbered_key b c"
  shows "map fst (citations ev') = map fst (citations ev) @
           map (\<lambda>j. spec_key (map ex_raw_text cits ! j)
                    (count_list (seen @ take j (map ex_raw_text cits))
                       (map ex_raw_text cits ! j)))
             [0..<length (map ex_raw_text cits)]"
  using assms
proof (induction cits arbitrary: ev w seen)
  case Nil
  then show ?case by simp
next
  case (Cons cit rest)
  let ?x = "ex_raw_text cit"
  from evaluate_citations_unfold [OF Cons.prems(1)] obtain ce key w1 ev2
    where key: "unique_key (citations ev) ?x ?x 1 = Some key"
      and c2: "citations ev2 = citations ev @ [(key, ce)]"
      and r: "evaluate_citations svc w1 ev2 rest = Some (Inr ev', w')"
    by blast
  have "\<forall>a\<in>insert ?x (set seen). \<forall>b\<in>insert ?x (set seen). \<forall>c\<ge>1. a \<noteq> numbered_key b c"
    using Cons.prems(3) by simp
  from unique_key_spec [OF Cons.prems(2) this] key
  have k: "key = spec_key ?x (count_list seen ?x)"
    by simp
  have keys2: "set (map fst (citations ev2)) =
               {spec_key y k | y k. k < count_list (seen @ [?x]) y}"
    unfolding assigned_snoc using Cons.prems(2) c2 k by simp
  have clash2: "\<forall>a\<in>set ((seen @ [?x]) @ map ex_raw_text rest).
      \<forall>b\<in>set ((seen @ [?x]) @ map ex_raw_text rest). \<forall>c\<ge>1. a \<noteq> numbered_key b c"
    using Cons.prems(3) by simp
  from Cons.IH [OF r keys2 clash2] c2 k show ?case
    unfolding list.map expected_keys_shift by simp
qed

text \<open>
  Claim C9, as stated, fails. In the document of \<open>clash_services\<close> the raw text
  \<open>G.L. c. 93A, s. 9\<close> occurs twice, but the key \<open>G.L. c. 93A, s. 9 (1)\<close> is already
  taken by the citation of that subsection, so the second occurrence is stored under
  \<open>G.L. c. 93A, s. 9 (2)\<close>.
\<close>

theorem evaluate_complaint_duplicate_keys_counterexample:
  "citation_keys (evaluate_complaint clash_services empty_world ''complaint.txt''
      example_metadata ''The complaint.'') =
   Some [''G.L. c. 93A, s. 9 (1)'', ''G.L. c. 93A, s. 9'', ''G.L. c. 93A, s. 9 (2)'']"
  by code_simp

text \<open>
  Claim C9, amended. Every returned evaluation has one entry for each extracted
  citation, in order, under pairwise distinct keys, and entry \<open>j\<close> carries the raw text
  and the proposition of citation \<open>j\<close>. When no raw text of the document is a raw text
  of the document followed by \<open>(n)\<close> for some \<open>n \<ge> 1\<close>, the key of citation \<open>j\<close> is
  its raw text if that text has not occurred before, and its raw text followed by
  \<open>(k)\<close> if it has occurred \<open>k\<close> times before: the first occurrence is unsuffixed,
  the second has \<open>(1)\<close>, the third \<open>(2)\<close>.
\<close>

theorem evaluate_complaint_duplicate_keys:
  assumes "extract_citations_with_llm svc w text = (Inr cits, w1)"
    and "evaluate_complaint svc w name md text = Some (Inr ev, w')"
  shows "length (citations ev) = length cits \<and>
     distinct (map fst (citations ev)) \<and>
     (\<forall>j<length cits.
        ev_raw_text (snd (citations ev ! j)) = ex_raw_text (cits ! j) \<and>
        ev_proposition (snd (citations ev ! j)) = ex_proposition (cits ! j)) \<and>
     ((\<forall>a\<in>set (map ex_raw_text cits). \<forall>b\<in>set (map ex_raw_text cits). \<forall>c\<ge>1.
          a \<noteq> numbered_key b c) \<longrightarrow>
      (\<forall>j<length cits.
         fst (citations ev ! j) =
           spec_key (ex_raw_text (cits ! j))
             (count_list (take j (map ex_raw_text cits)) (ex_raw_text (cits ! j)))))"
proof -
  let ?ev0 = "\<lparr>complaint_file = name, scenario_id = md_scenario_id md,
            category = md_category md, model = md_model md, total_citations = 0,
            case_citations = 0, statute_citations = 0, valid_citations = 0,
            invalid_citations = 0, supported_propositions = 0,
            unsupported_propositions = 0, citations = []\<rparr>
            \<lparr>total_citations := int (length cits)\<rparr>"
  let ?raws = "map ex_raw_text cits"
  from assms have run: "evaluate_citations svc w1 ?ev0 cits = Some (Inr ev, w')"
    by (simp add: evaluate_complaint_def Let_def)
  from evaluate_citations_entries [OF run]
  have entries: "map (\<lambda>e. (ev_raw_text (snd e), ev_proposition (snd e))) (citations ev) =
           map (\<lambda>c. (ex_raw_text c, ex_proposition c)) cits"
    and dist: "distinct (map fst (citations ev))"
    by simp_all
  from entries have len: "length (citations ev) = length cits"
    by (metis length_map)
  have content: "ev_raw_text (snd (citations ev ! j)) = ex_raw_text (cits ! j) \<and>
        ev_proposition (snd (citations ev ! j)) = ex_proposition (cits ! j)"
    if "j < length cits" for j
  proof -
    from that len have "map (\<lambda>e. (ev_raw_text (snd e), ev_proposition (snd e))) (citations ev) ! j =
        (ev_raw_text (snd (citations ev ! j)), ev_proposition (snd (citations ev ! j)))"
      by simp
    moreover from that have "map (\<lambda>c. (ex_raw_text c, ex_proposition c)) cits ! j =
        (ex_raw_text (cits ! j), ex_proposition (cits ! j))"
      by simp
    ultimately show ?thesis using entries by simp
  qed
  have named: "fst (citations ev ! j) =
           spec_key (ex_raw_text (cits ! j)) (count_list (take j ?raws) (ex_raw_text (cits ! j)))"
    if clash: "\<forall>a\<in>set ?raws. \<forall>b\<in>set ?raws. \<forall>c\<ge>1. a \<noteq> numbered_key b c"
      and j: "j < length cits" for j
  proof -
    have "set (map fst (citations ?ev0)) = {spec_key y k | y k. k < count_list [] y}"
      by simp
    moreover have "\<forall>a\<in>set ([] @ ?raws). \<forall>b\<in>set ([] @ ?raws). \<forall>c\<ge>1. a \<noteq> numbered_key b c"
      using clash by simp
    ultimately have "map fst (citations ev) = map fst (citations ?ev0) @
           map (\<lambda>j. spec_key (?raws ! j) (count_list ([] @ take j ?raws) (?raws ! j)))
             [0..<length ?raws]"
      by (rule evaluate_citations_keys [OF run])
    then have "map fst (citations ev) ! j =
           map (\<lambda>j. spec_key (?raws ! j) (count_list (take j ?raws) (?raws ! j)))
             [0..<length ?raws] ! j"
      by simp
    with j len show ?thesis by simp
  qed
  from len dist content named show ?thesis
    by blast
qed

text \<open>
  The example complaint cites \<open>Smith v. Jones, 123 F.3d 456\<close> first and last: the
  first entry has that key, the last the key with \<open>(1)\<close>, each with its own
  proposition.
\<close>

theorem evaluate_complaint_duplicate_keys_witness:
  "(case evaluate_complaint example_services empty_world ''complaint.txt''
           example_metadata ''The complaint.'' of
      Some (Inr ev, w') \<Rightarrow>
        length (citations ev) = 4 \<and> distinct (map fst (citations ev)) \<and>
        fst (citations ev ! 0) = ''Smith v. Jones, 123 F.3d 456'' \<and>
        fst (citations ev ! 3) = ''Smith v. Jones, 123 F.3d 456 (1)'' \<and>
        ev_proposition (snd (citations ev ! 0)) = ''Defendants owe a duty of care.'' \<and>
        ev_proposition (snd (citations ev ! 3)) = ''A duty extends to visitors.''
    | _ \<Rightarrow> False)"
proof -
  from example_run obtain ev w'
    where r: "evaluate_complaint example_services empty_world ''complaint.txt''
              example_metadata ''The complaint.'' = Some (Inr ev, w')"
    by blast
  have x: "extract_citations_with_llm example_services empty_world ''The complaint.'' =
           (Inr example_extraction, empty_world\<lparr>llm_calls := Suc (llm_calls empty_world)\<rparr>)"
    by (simp add: extract_citations_with_llm_def example_services_def)
  have no_paren: "a \<noteq> numbered_key b c"
    if "a \<in> set (map ex_raw_text example_extraction)" for a b c
  proof -
    from that have "a \<noteq> [] \<and> last a \<noteq> CHR '')''"
      by (auto simp: example_extraction_def)
    then show ?thesis
      by (intro numbered_key_ends_with_paren) simp_all
  qed
  then have clash: "\<forall>a\<in>set (map ex_raw_text example_extraction).
      \<forall>b\<in>set (map ex_raw_text example_extraction). \<forall>c\<ge>1. a \<noteq> numbered_key b c"
    by blast
  note th = evaluate_complaint_duplicate_keys [OF x r]
  from th have len: "length (citations ev) = 4" and dist: "distinct (map fst (citations ev))"
    by (simp_all add: example_extraction_def)
  from th have content: "\<forall>j<length example_extraction.
        ev_proposition (snd (citations ev ! j)) = ex_proposition (example_extraction ! j)"
    by blast
  from th clash have keys: "\<forall>j<length example_extraction.
         fst (citations ev ! j) =
           spec_key (ex_raw_text (example_extraction ! j))
             (count_list (take j (map ex_raw_text example_extraction))
                (ex_raw_text (example_extraction ! j)))"
    by blast
  have one: "str_nat (Suc 0) = ''1''"
    by (simp add: str_nat.simps digit_char_def)
  from keys [rule_format, of 0] have k0: "fst (citations ev ! 0) = ''Smith v. Jones, 123 F.3d 456''"
    by (simp add: example_extraction_def spec_key_def)
  from keys [rule_format, of 3]
  have k3: "fst (citations ev ! 3) = ''Smith v. Jones, 123 F.3d 456 (1)''"
    by (simp add: example_extraction_def spec_key_def numbered_key_def one
          numeral_3_eq_3 take_Suc_conv_app_nth)
  from content [rule_format, of 0]
  have p0: "ev_proposition (snd (citations ev ! 0)) = ''Defendants owe a duty of care.''"
    by (simp add: example_extraction_def)
  from content [rule_format, of 3]
  have p3: "ev_proposition (snd (citations ev ! 3)) = ''A duty extends to visitors.''"
    by (simp add: example_extraction_def)
  from len dist k0 k3 p0 p3 show ?thesis
    by (simp add: r)
qed

section \<open>The orchestrator returns\<close>

lemma unique_key_returns: "\<exists>k. unique_key d raw key start = Some k"
proof (cases "key \<in> set (map fst d)")
  case False
  then show ?thesis by (simp add: unique_key_free)
next
  case True
  let ?K = "set (map fst d)"
  have "\<exists>n\<ge>start. numbered_key raw n \<notin> ?K"
  proof (rule ccontr)
    assume "\<not> (\<exists>n\<ge>start. numbered_key raw n \<notin> ?K)"
    then have "numbered_key raw ` {start..} \<subseteq> ?K" by auto
    then have "finite (numbered_key raw ` {start..})"
      by (rule finite_subset) simp
    moreover have "inj_on (numbered_key raw) {start..}"
      by (auto simp: inj_on_def dest: numbered_key_inj)
    ultimately have "finite {start..}" by (rule finite_imageD)
    then show False by (simp add: infinite_Ici)
  qed
  then have ex: "\<exists>n. start \<le> n \<and> numbered_key raw n \<notin> ?K" by blast
  define n where "n = (LEAST n. start \<le> n \<and> numbered_key raw n \<notin> ?K)"
  have n: "start \<le> n \<and> numbered_key raw n \<notin> ?K"
    unfolding n_def using ex by (rule LeastI_ex)
  have below: "numbered_key raw c \<in> ?K" if "start \<le> c" and "c < n" for c
    using not_less_Least [of c "\<lambda>n. start \<le> n \<and> numbered_key raw n \<notin> ?K"] that
    unfolding n_def by blast
  have "unique_key d raw key start = Some (numbered_key raw n)"
  proof (rule unique_key_numbered)
    show "\<forall>c. start \<le> c \<and> c < n \<longrightarrow> numbered_key raw c \<in> ?K"
      using below by blast
    show "numbered_key raw n \<notin> ?K" using n by blast
    show "start \<le> n" using n by blast
    show "key \<in> ?K" by (rule True)
  qed
  then show ?thesis by blast
qed

lemma evaluate_proposition_support_returns:
  "\<exists>r. evaluate_proposition_support svc w citation_text proposition opinion = Some r"
proof -
  obtain chunks where c: "chunk_text_default opinion = Some chunks"
    using chunk_text_default_total by blast
  obtain r w1 where s: "evaluate_single_chunk svc w citation_text proposition opinion = (r, w1)"
    by (cases "evaluate_single_chunk svc w citation_text proposition opinion")
  show ?thesis
  proof (cases r)
    case (Inr result)
    with s show ?thesis by (simp add: evaluate_proposition_support_def)
  next
    case (Inl e)
    show ?thesis
    proof (cases e)
      case (BadRequestError msg)
      obtain r2 w2 where l: "evaluate_chunks svc citation_text proposition chunks None [] w1 =
          (r2, w2)"
        by (cases "evaluate_chunks svc citation_text proposition chunks None [] w1")
      show ?thesis
      proof (cases r2)
        case e2: (Inl e2)
        with s Inl BadRequestError c l show ?thesis
          by (simp add: evaluate_proposition_support_def)
      next
        case p: (Inr p)
        with s Inl BadRequestError c l show ?thesis
          by (cases p) (simp add: evaluate_proposition_support_def)
      qed
    qed (use s Inl in \<open>simp_all add: evaluate_proposition_support_def\<close>)
  qed
qed

lemma assess_support_returns: "\<exists>r. assess_support svc w ev ce cit opinion = Some r"
proof -
  obtain r where r: "evaluate_proposition_support svc w (ex_raw_text cit) (ex_proposition cit)
      opinion = Some r"
    using evaluate_proposition_support_returns by blast
  obtain res w1 where p: "r = (res, w1)" by (cases r)
  show ?thesis
    using r p by (cases res) (simp_all add: assess_support_def Let_def)
qed

lemma assess_citation_returns: "\<exists>r. assess_citation svc w ev cit = Some r"
proof (cases "ex_citation_type cit = ''statute''")
  case True
  then show ?thesis by (simp add: assess_citation_def Let_def)
next
  case False
  obtain e validated w1
    where v: "validate_citation svc w (Citation (ex_raw_text cit)) = (e, validated, w1)"
    by (cases "validate_citation svc w (Citation (ex_raw_text cit))")
  show ?thesis
  proof (cases e)
    case (Some err)
    with False v show ?thesis by (simp add: assess_citation_def Let_def)
  next
    case None
    show ?thesis
    proof (cases "is_valid validated = Some True")
      case invalid: False
      with False v None show ?thesis by (simp add: assess_citation_def Let_def)
    next
      case True
      show ?thesis
      proof (cases "opinion_text validated")
        case no_text: None
        with False v None True show ?thesis by (simp add: assess_citation_def Let_def)
      next
        case (Some opinion)
        with False v None True assess_support_returns show ?thesis
          by (simp add: assess_citation_def Let_def)
      qed
    qed
  qed
qed

lemma store_citation_returns: "\<exists>ev'. store_citation ev cit ce = Some ev'"
  using unique_key_returns [of "citations ev" "ex_raw_text cit" "ex_raw_text cit" 1]
  by (auto simp: store_citation_def)

lemma evaluate_citations_returns: "\<exists>r. evaluate_citations svc w ev cits = Some r"
proof (induction cits arbitrary: w ev)
  case Nil
  then show ?case by simp
next
  case (Cons cit rest)
  obtain r where a: "assess_citation svc w ev cit = Some r"
    using assess_citation_returns by blast
  show ?case
  proof (cases r)
    case (Pair res w1)
    show ?thesis
    proof (cases res)
      case (Inl e)
      with a Pair show ?thesis by simp
    next
      case (Inr p)
      obtain ev1 ce where p: "p = (ev1, ce)" by (cases p)
      obtain ev2 where "store_citation ev1 cit ce = Some ev2"
        using store_citation_returns by blast
      with a Pair Inr p Cons.IH [of w1 ev2] show ?thesis by simp
    qed
  qed
qed

text \<open>
  The model of \<open>evaluate_complaint\<close> always returns, with an evaluation or with an
  exception: neither the search for a free key nor the chunker with its defaults runs
  forever.
\<close>

lemma evaluate_complaint_returns: "\<exists>r. evaluate_complaint svc w name md text = Some r"
  using evaluate_citations_returns
  by (auto simp: evaluate_complaint_def Let_def split: prod.splits sum.splits)

end
